theory Spec2Isabelle
  imports Complex_Main "HOL-Library.Sublist" "HOL-Library.Word"
begin

section \<open>WordPiece tokenizer of the embedding path\<close>

text \<open>
  Go strings are byte sequences; \<open>len\<close>, \<open>tok[:end]\<close> and \<open>cur[2:]\<close> count bytes.
  They are modelled as \<^typ>\<open>string\<close> (a list of 8-bit characters). Go's \<open>int\<close> and
  \<open>int64\<close> token ids are modelled as \<^typ>\<open>int\<close>; no arithmetic is done on them.
\<close>

record wordPiece =
  vocab :: "string \<rightharpoonup> int"
  unkID :: int
  clsID :: int
  sepID :: int
  padID :: int

text \<open>
  The inner loop of \<open>tokenizeWord\<close> (\<open>for end > 0 { ... end-- }\<close>): starting from
  \<open>end = len(tok)\<close> it tries \<open>tok[:end]\<close>, with \<open>##\<close> prepended when \<open>len(out) > 0\<close>,
  and stops at the first candidate found in the vocabulary. The result is \<open>(cur, id)\<close>
  when \<open>found\<close> is set and \<open>None\<close> otherwise.
\<close>

fun tokenizeWord_search :: "(string \<rightharpoonup> int) \<Rightarrow> string \<Rightarrow> int list \<Rightarrow> nat \<Rightarrow> (string \<times> int) option" where
  "tokenizeWord_search v tok out 0 = None"
| "tokenizeWord_search v tok out (Suc e) =
     (let sub = take (Suc e) tok;
          candidate = (if length out > 0 then ''##'' @ sub else sub)
      in case v candidate of
           Some vid \<Rightarrow> Some (candidate, vid)
         | None \<Rightarrow> tokenizeWord_search v tok out e)"

text \<open>
  One iteration of the outer loop \<open>for len(tok) > 0\<close>: either the loop is left by
  \<open>break\<close> with the unknown id appended (\<open>Exit\<close>), or the piece id is appended and the
  matched bytes are cut from \<open>tok\<close> (\<open>Next\<close>). The number of bytes cut is the length of
  \<open>cur\<close> after \<open>strings.HasPrefix(cur, "##")\<close> has stripped two bytes.
\<close>

datatype loop_ctl = Next string "int list" | Exit "int list"

definition tokenizeWord_body :: "wordPiece \<Rightarrow> string \<Rightarrow> int list \<Rightarrow> loop_ctl" where
  "tokenizeWord_body w tok out =
     (case tokenizeWord_search (vocab w) tok out (length tok) of
        None \<Rightarrow> Exit (out @ [unkID w])
      | Some (cur, vid) \<Rightarrow>
          (let out' = out @ [vid];
               cur' = (if prefix ''##'' cur then drop 2 cur else cur)
           in Next (drop (length cur') tok) out'))"

lemma tokenizeWord_search_Some:
  "tokenizeWord_search v tok out n = Some (cur, vid) \<Longrightarrow>
     \<exists>e. 0 < e \<and> e \<le> n
       \<and> cur = (if length out > 0 then ''##'' @ take e tok else take e tok)
       \<and> v cur = Some vid
       \<and> (\<forall>e'. e < e' \<and> e' \<le> n \<longrightarrow>
             v (if length out > 0 then ''##'' @ take e' tok else take e' tok) = None)"
proof (induction n)
  case 0
  then show ?case by simp
next
  case (Suc n)
  let ?cand = "\<lambda>k. if length out > 0 then ''##'' @ take k tok else take k tok"
  show ?case
  proof (cases "v (?cand (Suc n))")
    case (Some a)
    with Suc.prems have "cur = ?cand (Suc n)" "vid = a"
      by (auto simp: Let_def split: if_splits)
    with Some show ?thesis
      by (intro exI [of _ "Suc n"]) auto
  next
    case None
    with Suc.prems have "tokenizeWord_search v tok out n = Some (cur, vid)"
      by (auto simp: Let_def split: if_splits)
    from Suc.IH [OF this] obtain e where e: "0 < e" "e \<le> n" "cur = ?cand e" "v cur = Some vid"
      "\<forall>e'. e < e' \<and> e' \<le> n \<longrightarrow> v (?cand e') = None"
      by blast
    have "\<forall>e'. e < e' \<and> e' \<le> Suc n \<longrightarrow> v (?cand e') = None"
    proof (intro allI impI)
      fix e' assume "e < e' \<and> e' \<le> Suc n"
      then consider "e' \<le> n" "e < e'" | "e' = Suc n" by linarith
      then show "v (?cand e') = None"
      proof cases
        case 1
        with e(5) show ?thesis by blast
      next
        case 2
        with None show ?thesis by (auto split: if_splits)
      qed
    qed
    with e show ?thesis
      by (intro exI [of _ e]) auto
  qed
qed

lemma tokenizeWord_search_None:
  "tokenizeWord_search v tok out n = None \<Longrightarrow> 0 < e \<Longrightarrow> e \<le> n \<Longrightarrow>
     v (if length out > 0 then ''##'' @ take e tok else take e tok) = None"
proof (induction n)
  case 0
  then show ?case by simp
next
  case (Suc n)
  show ?case
  proof (cases "e = Suc n")
    case True
    with Suc.prems(1) show ?thesis
      by (auto simp: Let_def split: option.splits if_splits)
  next
    case False
    with Suc.prems have "e \<le> n" by simp
    moreover from Suc.prems(1) have "tokenizeWord_search v tok out n = None"
      by (auto simp: Let_def split: option.splits if_splits)
    ultimately show ?thesis using Suc.IH Suc.prems(2) by blast
  qed
qed

text \<open>
  What one iteration does to the remaining bytes: after a match the output is never
  empty and the remainder never grows; it shrinks whenever the output was already
  non-empty or the word does not begin with the marker.
\<close>

lemma tokenizeWord_body_Next:
  assumes "tokenizeWord_body w tok out = Next tok' out'"
  shows "out' \<noteq> []" and "length tok' \<le> length tok"
    and "tok \<noteq> [] \<Longrightarrow> out \<noteq> [] \<or> \<not> prefix ''##'' tok \<Longrightarrow> length tok' < length tok"
proof -
  obtain cur vid where
    s: "tokenizeWord_search (vocab w) tok out (length tok) = Some (cur, vid)"
  proof (cases "tokenizeWord_search (vocab w) tok out (length tok)")
    case None
    with assms show ?thesis by (simp add: tokenizeWord_body_def)
  next
    case (Some p)
    with that show ?thesis by (cases p) simp
  qed
  define n where "n = length (if prefix ''##'' cur then drop 2 cur else cur)"
  from assms s have o: "out' = out @ [vid]" and t: "tok' = drop n tok"
    by (simp_all add: tokenizeWord_body_def n_def)
  from o show "out' \<noteq> []" by simp
  from t show "length tok' \<le> length tok" by simp
  assume ne: "tok \<noteq> []" and pre: "out \<noteq> [] \<or> \<not> prefix ''##'' tok"
  from tokenizeWord_search_Some [OF s] obtain e where
    e: "0 < e" "e \<le> length tok"
    and c: "cur = (if length out > 0 then ''##'' @ take e tok else take e tok)"
    by blast
  have "n = e"
  proof (cases "out = []")
    case True
    with pre have np: "\<not> prefix ''##'' tok" by simp
    from True c have c': "cur = take e tok" by simp
    have "\<not> prefix ''##'' cur"
    proof
      assume "prefix ''##'' cur"
      with c' have "prefix ''##'' (take e tok)" by simp
      moreover have "prefix (take e tok) tok" by (rule take_is_prefix)
      ultimately have "prefix ''##'' tok" by (rule prefix_order.trans)
      with np show False by simp
    qed
    with c' e show ?thesis by (simp add: n_def)
  next
    case False
    with c have "cur = ''##'' @ take e tok" by simp
    with e show ?thesis by (simp add: n_def)
  qed
  with t e ne show "length tok' < length tok" by simp
qed

text \<open>
  The outer loop. It is not structurally recursive: the measure is lexicographic,
  first whether the output is still empty, then the number of remaining bytes.
\<close>

function tokenizeWord_loop :: "wordPiece \<Rightarrow> string \<Rightarrow> int list \<Rightarrow> int list" where
  "tokenizeWord_loop w tok out =
     (if length tok > 0 then
        (case tokenizeWord_body w tok out of
           Exit out' \<Rightarrow> out'
         | Next tok' out' \<Rightarrow> tokenizeWord_loop w tok' out')
      else out)"
  by pat_completeness auto
termination
proof (relation "measures [\<lambda>(w, tok, out). if out = [] then 1 else 0, \<lambda>(w, tok, out). length tok]")
  show "wf (measures [\<lambda>(w, tok, out). if out = [] then 1 else 0, \<lambda>(w, tok, out). length tok])"
    by simp
next
  fix w :: wordPiece and tok :: string and out :: "int list" and tok' out'
  assume "0 < length tok" and b: "tokenizeWord_body w tok out = Next tok' out'"
  then have ne: "tok \<noteq> []" by simp
  show "((w, tok', out'), (w, tok, out))
          \<in> measures [\<lambda>(w, tok, out). if out = [] then 1 else 0, \<lambda>(w, tok, out). length tok]"
  proof (cases "out = []")
    case True
    with tokenizeWord_body_Next(1) [OF b] show ?thesis by simp
  next
    case False
    with tokenizeWord_body_Next(1) [OF b] tokenizeWord_body_Next(3) [OF b ne]
    show ?thesis by simp
  qed
qed

declare tokenizeWord_loop.simps [simp del]

definition tokenizeWord :: "wordPiece \<Rightarrow> string \<Rightarrow> int list" where
  "tokenizeWord w tok = (if tok = [] then [] else tokenizeWord_loop w tok [])"

lemma tokenizeWord_loop_Nil [simp]: "tokenizeWord_loop w [] out = out"
  by (simp add: tokenizeWord_loop.simps [of w "[]"])

lemma tokenizeWord_loop_step:
  "tok \<noteq> [] \<Longrightarrow> tokenizeWord_loop w tok out =
     (case tokenizeWord_body w tok out of
        Exit out' \<Rightarrow> out'
      | Next tok' out' \<Rightarrow> tokenizeWord_loop w tok' out')"
  by (simp add: tokenizeWord_loop.simps [of w tok])


text \<open>
  The same loop with a bound on the number of times the loop condition is evaluated:
  \<open>None\<close> means the bound was reached before the loop was left.
\<close>

fun tokenizeWord_fuel :: "nat \<Rightarrow> wordPiece \<Rightarrow> string \<Rightarrow> int list \<Rightarrow> int list option" where
  "tokenizeWord_fuel 0 w tok out = None"
| "tokenizeWord_fuel (Suc n) w tok out =
     (if length tok > 0 then
        (case tokenizeWord_body w tok out of
           Exit out' \<Rightarrow> Some out'
         | Next tok' out' \<Rightarrow> tokenizeWord_fuel n w tok' out')
      else Some out)"

text \<open>
  The state \<open>(tok, out)\<close> at the head of the loop after \<open>k\<close> iterations of a call on
  \<open>word\<close>, when the loop is still running then.
\<close>

fun tokenizeWord_iter :: "wordPiece \<Rightarrow> string \<Rightarrow> nat \<Rightarrow> (string \<times> int list) option" where
  "tokenizeWord_iter w word 0 = Some (word, [])"
| "tokenizeWord_iter w word (Suc k) =
     (case tokenizeWord_iter w word k of
        None \<Rightarrow> None
      | Some (tok, out) \<Rightarrow>
          if length tok > 0 then
            (case tokenizeWord_body w tok out of
               Exit out' \<Rightarrow> None
             | Next tok' out' \<Rightarrow> Some (tok', out'))
          else None)"

lemma tokenizeWord_iter_marker:
  "tokenizeWord_iter w word k = Some (tok, out) \<Longrightarrow> \<not> prefix ''##'' word \<Longrightarrow>
     out \<noteq> [] \<or> \<not> prefix ''##'' tok"
proof (cases k)
  case 0
  then show "tokenizeWord_iter w word k = Some (tok, out) \<Longrightarrow> \<not> prefix ''##'' word \<Longrightarrow>
     out \<noteq> [] \<or> \<not> prefix ''##'' tok"
    by simp
next
  case (Suc j)
  assume "tokenizeWord_iter w word k = Some (tok, out)"
  with Suc obtain tok0 out0 where "tokenizeWord_body w tok0 out0 = Next tok out"
    by (auto split: option.splits if_splits loop_ctl.splits)
  from tokenizeWord_body_Next(1) [OF this] show "out \<noteq> [] \<or> \<not> prefix ''##'' tok" by simp
qed

subsection \<open>The tokenizer as the specification words it\<close>

text \<open>
  Greedy longest-prefix matching, written from the specification: the prefix lengths
  of the remaining substring from the longest down to one, each kept with its id when
  the prefix (with the marker in front) is in the vocabulary; the first of them is the
  longest match. The first piece of a token carries no marker, every later piece
  carries \<open>##\<close>. When no prefix is in the vocabulary a single unknown id ends the token.
\<close>

definition marker :: "bool \<Rightarrow> string" where
  "marker first = (if first then [] else ''##'')"

definition prefixes_in_vocab :: "(string \<rightharpoonup> int) \<Rightarrow> string \<Rightarrow> string \<Rightarrow> (nat \<times> int) list" where
  "prefixes_in_vocab v mk rest =
     List.map_filter (\<lambda>k. map_option (Pair k) (v (mk @ take k rest))) (rev [1..<Suc (length rest)])"

definition longest_prefix_in_vocab :: "(string \<rightharpoonup> int) \<Rightarrow> string \<Rightarrow> string \<Rightarrow> (nat \<times> int) option" where
  "longest_prefix_in_vocab v mk rest =
     (case prefixes_in_vocab v mk rest of [] \<Rightarrow> None | p # _ \<Rightarrow> Some p)"

lemma prefixes_in_vocab_pos: "(k, i) \<in> set (prefixes_in_vocab v mk rest) \<Longrightarrow> 0 < k \<and> k \<le> length rest"
  by (auto simp: prefixes_in_vocab_def List.map_filter_def)

lemma longest_prefix_in_vocab_pos:
  "longest_prefix_in_vocab v mk rest = Some (k, i) \<Longrightarrow> 0 < k \<and> k \<le> length rest"
  using prefixes_in_vocab_pos [of k i v mk rest]
  by (auto simp: longest_prefix_in_vocab_def split: list.splits)

function wordpiece_spec :: "(string \<rightharpoonup> int) \<Rightarrow> int \<Rightarrow> bool \<Rightarrow> string \<Rightarrow> int list" where
  "wordpiece_spec v unk first rest =
     (if rest = [] then []
      else (case longest_prefix_in_vocab v (marker first) rest of
              None \<Rightarrow> [unk]
            | Some (k, i) \<Rightarrow> i # wordpiece_spec v unk False (drop k rest)))"
  by pat_completeness auto
termination
proof (relation "measure (\<lambda>(v, unk, first, rest). length rest)")
  show "wf (measure (\<lambda>(v, unk, first, rest). length rest))" by simp
next
  fix v :: "string \<rightharpoonup> int" and unk :: int and first :: bool and rest :: string and p k i
  assume "rest \<noteq> []" and "longest_prefix_in_vocab v (marker first) rest = Some p" and "(k, i) = p"
  then have "0 < k \<and> k \<le> length rest"
    using longest_prefix_in_vocab_pos [of v "marker first" rest k i] by simp
  with \<open>rest \<noteq> []\<close> show "((v, unk, False, drop k rest), (v, unk, first, rest))
      \<in> measure (\<lambda>(v, unk, first, rest). length rest)"
    by simp
qed

declare wordpiece_spec.simps [simp del]

lemma wordpiece_spec_Nil [simp]: "wordpiece_spec v unk first [] = []"
  by (simp add: wordpiece_spec.simps [of v unk first "[]"])

lemma wordpiece_spec_step:
  "rest \<noteq> [] \<Longrightarrow> wordpiece_spec v unk first rest =
     (case longest_prefix_in_vocab v (marker first) rest of
        None \<Rightarrow> [unk]
      | Some (k, i) \<Rightarrow> i # wordpiece_spec v unk False (drop k rest))"
  by (simp add: wordpiece_spec.simps [of v unk first rest])


subsection \<open>The loop of the source against the specification's wording\<close>

lemma tokenizeWord_search_prefixes:
  "tokenizeWord_search v tok out n =
     (case List.map_filter (\<lambda>k. map_option (Pair k) (v (marker (out = []) @ take k tok)))
             (rev [1..<Suc n]) of
        [] \<Rightarrow> None
      | (k, i) # _ \<Rightarrow> Some (marker (out = []) @ take k tok, i))"
proof (induction n)
  case 0
  show ?case by simp
next
  case (Suc n)
  show ?case
  proof (cases "v (marker (out = []) @ take (Suc n) tok)")
    case None
    then have "tokenizeWord_search v tok out (Suc n) = tokenizeWord_search v tok out n"
      by (auto simp: marker_def Let_def split: if_splits)
    with None Suc.IH show ?thesis by simp
  next
    case (Some i)
    then have "tokenizeWord_search v tok out (Suc n) = Some (marker (out = []) @ take (Suc n) tok, i)"
      by (auto simp: marker_def Let_def split: if_splits)
    with Some show ?thesis by simp
  qed
qed

lemma strip_marker_length:
  assumes "out \<noteq> [] \<or> \<not> prefix ''##'' tok" and "0 < k" and "k \<le> length tok"
  shows "length (if prefix ''##'' (marker (out = []) @ take k tok)
                 then drop 2 (marker (out = []) @ take k tok)
                 else marker (out = []) @ take k tok) = k"
proof (cases "out = []")
  case True
  with assms(1) have np: "\<not> prefix ''##'' tok" by simp
  have "\<not> prefix ''##'' (take k tok)"
  proof
    assume "prefix ''##'' (take k tok)"
    moreover have "prefix (take k tok) tok" by (rule take_is_prefix)
    ultimately have "prefix ''##'' tok" by (rule prefix_order.trans)
    with np show False by simp
  qed
  with True assms(3) show ?thesis by (simp add: marker_def)
next
  case False
  with assms(3) show ?thesis by (simp add: marker_def)
qed

lemma tokenizeWord_search_longest:
  "tokenizeWord_search v tok out (length tok) =
     (case longest_prefix_in_vocab v (marker (out = [])) tok of
        None \<Rightarrow> None
      | Some (k, i) \<Rightarrow> Some (marker (out = []) @ take k tok, i))"
proof -
  define xs where "xs = prefixes_in_vocab v (marker (out = [])) tok"
  have "tokenizeWord_search v tok out (length tok) =
          (case xs of [] \<Rightarrow> None | (k, i) # _ \<Rightarrow> Some (marker (out = []) @ take k tok, i))"
    unfolding xs_def prefixes_in_vocab_def by (rule tokenizeWord_search_prefixes)
  moreover have "longest_prefix_in_vocab v (marker (out = [])) tok =
          (case xs of [] \<Rightarrow> None | p # _ \<Rightarrow> Some p)"
    unfolding xs_def by (rule longest_prefix_in_vocab_def)
  ultimately show ?thesis by (cases xs) auto
qed

lemma tokenizeWord_body_spec:
  assumes "out \<noteq> [] \<or> \<not> prefix ''##'' tok"
  shows "tokenizeWord_body w tok out =
     (case longest_prefix_in_vocab (vocab w) (marker (out = [])) tok of
        None \<Rightarrow> Exit (out @ [unkID w])
      | Some (k, i) \<Rightarrow> Next (drop k tok) (out @ [i]))"
proof (cases "longest_prefix_in_vocab (vocab w) (marker (out = [])) tok")
  case None
  then have "tokenizeWord_search (vocab w) tok out (length tok) = None"
    by (simp add: tokenizeWord_search_longest)
  with None show ?thesis by (simp add: tokenizeWord_body_def)
next
  case (Some p)
  obtain k i where p: "p = (k, i)" by (cases p)
  with Some have
    "tokenizeWord_search (vocab w) tok out (length tok) = Some (marker (out = []) @ take k tok, i)"
    by (simp add: tokenizeWord_search_longest)
  moreover from Some p have "0 < k \<and> k \<le> length tok"
    using longest_prefix_in_vocab_pos by blast
  then have "length (if prefix ''##'' (marker (out = []) @ take k tok)
                 then drop 2 (marker (out = []) @ take k tok)
                 else marker (out = []) @ take k tok) = k"
    using strip_marker_length [OF assms] by blast
  ultimately show ?thesis using Some p by (simp add: tokenizeWord_body_def)
qed

lemma tokenizeWord_loop_spec:
  "out \<noteq> [] \<or> \<not> prefix ''##'' tok \<Longrightarrow>
     tokenizeWord_loop w tok out = out @ wordpiece_spec (vocab w) (unkID w) (out = []) tok"
proof (induction w tok out rule: tokenizeWord_loop.induct)
  case (1 w tok out)
  show ?case
  proof (cases "tok = []")
    case True
    then show ?thesis by simp
  next
    case False
    note body = tokenizeWord_body_spec [OF "1.prems", of w]
    show ?thesis
    proof (cases "longest_prefix_in_vocab (vocab w) (marker (out = [])) tok")
      case None
      with False body show ?thesis
        by (simp add: tokenizeWord_loop_step wordpiece_spec_step)
    next
      case (Some p)
      obtain k i where p: "p = (k, i)" by (cases p)
      from Some p body have b: "tokenizeWord_body w tok out = Next (drop k tok) (out @ [i])"
        by simp
      from False have "0 < length tok" by simp
      from "1.IH" [OF this b]
      have "tokenizeWord_loop w (drop k tok) (out @ [i])
              = (out @ [i]) @ wordpiece_spec (vocab w) (unkID w) False (drop k tok)"
        by simp
      with False b Some p show ?thesis
        by (simp add: tokenizeWord_loop_step wordpiece_spec_step)
    qed
  qed
qed

lemma tokenizeWord_fuel_enough:
  "length tok + (if out = [] then 2 else 1) \<le> n \<Longrightarrow>
     tokenizeWord_fuel n w tok out = Some (tokenizeWord_loop w tok out)"
proof (induction w tok out arbitrary: n rule: tokenizeWord_loop.induct)
  case (1 w tok out)
  from "1.prems" obtain m where n: "n = Suc m" by (cases n) (auto split: if_splits)
  show ?case
  proof (cases "tok = []")
    case True
    with n show ?thesis by simp
  next
    case False
    then have pos: "0 < length tok" by simp
    show ?thesis
    proof (cases "tokenizeWord_body w tok out")
      case (Exit out')
      with n pos show ?thesis by (simp add: tokenizeWord_loop_step)
    next
      case (Next tok' out')
      have "out' \<noteq> []" by (rule tokenizeWord_body_Next(1) [OF Next])
      moreover have "length tok' + 1 \<le> m"
      proof (cases "out = []")
        case True
        with "1.prems" n tokenizeWord_body_Next(2) [OF Next] show ?thesis by simp
      next
        case False
        with "1.prems" n tokenizeWord_body_Next(3) [OF Next \<open>tok \<noteq> []\<close>] show ?thesis by simp
      qed
      ultimately have "tokenizeWord_fuel m w tok' out' = Some (tokenizeWord_loop w tok' out')"
        using "1.IH" [OF pos Next, of m] by simp
      with n pos Next show ?thesis by (simp add: tokenizeWord_loop_step)
    qed
  qed
qed


subsection \<open>Claims about \<open>tokenizeWord\<close>\<close>

definition demo_wordPiece :: wordPiece where
  "demo_wordPiece =
     \<lparr>vocab = [''un'' \<mapsto> 1, ''##aff'' \<mapsto> 2, ''##able'' \<mapsto> 3, ''##'' \<mapsto> 7],
      unkID = 100, clsID = 101, sepID = 102, padID = 0\<rparr>"

text \<open>
  C5. For a basic token, \<open>tokenizeWord\<close> is greedy longest-prefix matching: the first
  piece is looked up as it is, every later piece with \<open>##\<close> in front, and the first
  search that finds no prefix in the vocabulary appends one unknown id and ends the
  token. A basic token consists of letters and digits only, so it does not begin with
  \<open>##\<close>; that is all the theorem asks of the token.
\<close>

theorem tokenizeWord_greedy_longest_prefix:
  "\<not> prefix ''##'' tok \<Longrightarrow>
     tokenizeWord w tok = wordpiece_spec (vocab w) (unkID w) True tok"
  using tokenizeWord_loop_spec [of "[]" tok w] by (simp add: tokenizeWord_def)

theorem tokenizeWord_greedy_longest_prefix_witness:
  "\<not> prefix ''##'' ''unaffable''
   \<and> tokenizeWord demo_wordPiece ''unaffable'' = [1, 2, 3]
   \<and> tokenizeWord demo_wordPiece ''unaffxble'' = [1, 2, 100]"
proof -
  have "wordpiece_spec (vocab demo_wordPiece) (unkID demo_wordPiece) True ''unaffable'' = [1, 2, 3]"
    by code_simp
  moreover have "wordpiece_spec (vocab demo_wordPiece) (unkID demo_wordPiece) True ''unaffxble'' = [1, 2, 100]"
    by code_simp
  ultimately show ?thesis
    using tokenizeWord_greedy_longest_prefix [of "''unaffable''" demo_wordPiece]
      tokenizeWord_greedy_longest_prefix [of "''unaffxble''" demo_wordPiece]
    by simp
qed

text \<open>
  C10. \<open>tokenizeWord\<close> terminates on every word: the loop is left after at most
  \<open>len(word) + 2\<close> evaluations of its condition. In a call on a word that does not
  begin with \<open>##\<close>, as every basic token that \<open>encode\<close> passes, each iteration either
  cuts at least one byte from the remaining substring or appends the unknown id and
  leaves the loop.
\<close>

theorem tokenizeWord_terminates:
  "tokenizeWord_fuel (length word + 2) w word [] = Some (tokenizeWord w word)
   \<and> (\<not> prefix ''##'' word \<and> tokenizeWord_iter w word k = Some (tok, out) \<and> tok \<noteq> [] \<longrightarrow>
        (case tokenizeWord_body w tok out of
           Exit out' \<Rightarrow> out' = out @ [unkID w]
         | Next tok' out' \<Rightarrow> length tok' < length tok))"
proof (intro conjI impI)
  show "tokenizeWord_fuel (length word + 2) w word [] = Some (tokenizeWord w word)"
    using tokenizeWord_fuel_enough [of word "[]" "length word + 2" w]
    by (simp add: tokenizeWord_def)
next
  assume a: "\<not> prefix ''##'' word \<and> tokenizeWord_iter w word k = Some (tok, out) \<and> tok \<noteq> []"
  then have m: "out \<noteq> [] \<or> \<not> prefix ''##'' tok"
    using tokenizeWord_iter_marker [of w word k tok out] by blast
  show "case tokenizeWord_body w tok out of
           Exit out' \<Rightarrow> out' = out @ [unkID w]
         | Next tok' out' \<Rightarrow> length tok' < length tok"
  proof (cases "tokenizeWord_body w tok out")
    case (Next tok' out')
    with a m tokenizeWord_body_Next(3) [OF Next] show ?thesis by simp
  next
    case (Exit out')
    then show ?thesis
      by (auto simp: tokenizeWord_body_def split: option.splits)
  qed
qed

theorem tokenizeWord_terminates_witness:
  "tokenizeWord_fuel (length ''unaffable'' + 2) demo_wordPiece ''unaffable'' []
     = Some (tokenizeWord demo_wordPiece ''unaffable'')
   \<and> tokenizeWord demo_wordPiece ''unaffable'' = [1, 2, 3]
   \<and> \<not> prefix ''##'' ''unaffable''
   \<and> tokenizeWord_iter demo_wordPiece ''unaffable'' 2 = Some (''able'', [1, 2])
   \<and> ''able'' \<noteq> []
   \<and> tokenizeWord_body demo_wordPiece ''able'' [1, 2] = Next [] [1, 2, 3]
   \<and> length ([] :: string) < length ''able''"
proof -
  have i: "tokenizeWord_iter demo_wordPiece ''unaffable'' 2 = Some (''able'', [1, 2])"
    by code_simp
  have b: "tokenizeWord_body demo_wordPiece ''able'' [1, 2] = Next [] [1, 2, 3]"
    by code_simp
  have t: "tokenizeWord demo_wordPiece ''unaffable'' = [1, 2, 3]"
    by code_simp
  from tokenizeWord_terminates [of "''unaffable''" demo_wordPiece 2 "''able''" "[1, 2]"] i b t
  show ?thesis by simp
qed

text \<open>
  The restriction to words that do not begin with \<open>##\<close> is needed for the step count
  only, not for termination. On the word \<open>##\<close>, which no basic token is, the first
  search can match the marker itself, \<open>strings.HasPrefix\<close> strips the piece to the empty
  string and that iteration cuts no byte.
\<close>

lemma tokenizeWord_marker_word:
  "tokenizeWord_body demo_wordPiece ''##'' [] = Next ''##'' [7]
   \<and> tokenizeWord demo_wordPiece ''##'' = [7, 100]"
  by code_simp


section \<open>Go library functions taken as parameters\<close>

text \<open>
  The repository calls functions of Go's standard library whose results depend on the
  Unicode tables (\<open>unicode.IsLetter\<close>, \<open>strings.ToLower\<close>, \<open>strings.Fields\<close>, the
  regular expression \<open>\pL+|\pN+\<close>, ...). They are not code of the repository and are
  taken as parameters: every theorem below holds for any functions in their place.
  A rune is a Unicode code point.
\<close>

type_synonym rune = nat

record golib =
  ToLower :: "string \<Rightarrow> string"
  TrimSpace :: "string \<Rightarrow> string"
  Fields :: "string \<Rightarrow> string list"
  Runes :: "string \<Rightarrow> rune list"
  WriteRune :: "rune \<Rightarrow> string"
  IsLetter :: "rune \<Rightarrow> bool"
  IsDigit :: "rune \<Rightarrow> bool"
  FindAllWords :: "string \<Rightarrow> string list"

text \<open>
  \<open>Runes s\<close> are the runes that \<open>for _, r := range s\<close> yields, \<open>WriteRune r\<close> the bytes
  that \<open>strings.Builder.WriteRune\<close> appends, and \<open>FindAllWords s\<close> is
  \<open>wordRE.FindAllString(s, -1)\<close> for \<open>wordRE = \pL+|\pN+\<close>.

  For evaluating examples there is an instance that agrees with the Go functions on
  ASCII input: bytes are runes, letters are \<open>A-Z\<close> and \<open>a-z\<close>, digits \<open>0-9\<close>, white space
  is tab, line feed, vertical tab, form feed, carriage return and space.
\<close>

definition ascii_is_upper :: "nat \<Rightarrow> bool" where
  "ascii_is_upper r = (65 \<le> r \<and> r \<le> 90)"

definition ascii_is_letter :: "nat \<Rightarrow> bool" where
  "ascii_is_letter r = (ascii_is_upper r \<or> (97 \<le> r \<and> r \<le> 122))"

definition ascii_is_digit :: "nat \<Rightarrow> bool" where
  "ascii_is_digit r = (48 \<le> r \<and> r \<le> 57)"

definition ascii_is_space :: "char \<Rightarrow> bool" where
  "ascii_is_space c = (let r = (of_char c :: nat) in (9 \<le> r \<and> r \<le> 13) \<or> r = 32)"

definition ascii_to_lower :: "string \<Rightarrow> string" where
  "ascii_to_lower s =
     map (\<lambda>c. if ascii_is_upper (of_char c) then char_of ((of_char c :: nat) + 32) else c) s"

definition ascii_trim_space :: "string \<Rightarrow> string" where
  "ascii_trim_space s = rev (dropWhile ascii_is_space (rev (dropWhile ascii_is_space s)))"

fun ascii_fields_from :: "string \<Rightarrow> string \<Rightarrow> string list" where
  "ascii_fields_from cur [] = (if cur = [] then [] else [cur])"
| "ascii_fields_from cur (c # cs) =
     (if ascii_is_space c
      then (if cur = [] then ascii_fields_from [] cs else cur # ascii_fields_from [] cs)
      else ascii_fields_from (cur @ [c]) cs)"

definition ascii_class :: "char \<Rightarrow> nat" where
  "ascii_class c =
     (if ascii_is_letter (of_char c) then 1 else if ascii_is_digit (of_char c) then 2 else 0)"

fun ascii_words_from :: "string \<Rightarrow> nat \<Rightarrow> string \<Rightarrow> string list" where
  "ascii_words_from cur k [] = (if cur = [] then [] else [cur])"
| "ascii_words_from cur k (c # cs) =
     (if ascii_class c = 0
      then (if cur = [] then ascii_words_from [] 0 cs else cur # ascii_words_from [] 0 cs)
      else if ascii_class c = k \<or> cur = [] then ascii_words_from (cur @ [c]) (ascii_class c) cs
      else cur # ascii_words_from [c] (ascii_class c) cs)"

definition ascii :: golib where
  "ascii =
     \<lparr>ToLower = ascii_to_lower,
      TrimSpace = ascii_trim_space,
      Fields = ascii_fields_from [],
      Runes = map of_char,
      WriteRune = (\<lambda>r. [char_of r]),
      IsLetter = ascii_is_letter,
      IsDigit = ascii_is_digit,
      FindAllWords = ascii_words_from [] 0\<rparr>"

section \<open>Loading the WordPiece vocabulary\<close>

text \<open>
  Go \<open>error\<close> values: an error of the file system, an error of the ONNX runtime, the
  two errors that the generation code makes itself, and the error of a context that
  is done (\<open>context.Canceled\<close> or \<open>context.DeadlineExceeded\<close>).
\<close>

datatype ctx_err = Canceled | DeadlineExceeded

datatype go_error =
    IOError
  | OrtError
  | UnexpectedLogitsType
  | UnexpectedLogitsShape "int list"
  | ContextError ctx_err

text \<open>\<open>strings.Split(s, sep)\<close> for a separator of one byte.\<close>

fun Split :: "string \<Rightarrow> char \<Rightarrow> string list" where
  "Split [] sep = [[]]"
| "Split (c # cs) sep =
     (if c = sep then [] # Split cs sep
      else (case Split cs sep of [] \<Rightarrow> [[c]] | l # ls \<Rightarrow> (c # l) # ls))"

text \<open>
  \<open>loadWordPiece\<close>; the argument is what \<open>os.ReadFile\<close> gives (\<open>None\<close> when it fails).
  The id of a token is the index of the first line that holds it.
\<close>

definition loadWordPiece_vocab :: "golib \<Rightarrow> string list \<Rightarrow> (string \<rightharpoonup> int)" where
  "loadWordPiece_vocab L lines =
     fold (\<lambda>(i, line) vp.
             (let tok = TrimSpace L line
              in if tok = [] then vp
                 else if vp tok = None then vp(tok \<mapsto> int i) else vp))
          (enumerate 0 lines) Map.empty"

definition loadWordPiece :: "golib \<Rightarrow> string option \<Rightarrow> go_error + wordPiece" where
  "loadWordPiece L file =
     (case file of
        None \<Rightarrow> Inl IOError
      | Some b \<Rightarrow>
          (let lines = Split b (CHR 0x0A);
               vp = loadWordPiece_vocab L lines;
               get = (\<lambda>tok def. case vp tok of Some i \<Rightarrow> i | None \<Rightarrow> def)
           in Inr \<lparr>vocab = vp,
                   unkID = get ''[UNK]'' 100,
                   clsID = get ''[CLS]'' 101,
                   sepID = get ''[SEP]'' 102,
                   padID = get ''[PAD]'' 0\<rparr>))"

section \<open>Encoding a text for the embedding model\<close>

text \<open>
  \<open>basicTokens\<close>: \<open>b\<close> is the \<open>strings.Builder\<close>, \<open>flush\<close> the closure of the source.
\<close>

definition flush :: "string \<times> string list \<Rightarrow> string \<times> string list" where
  "flush st = (case st of (b, out) \<Rightarrow> if length b > 0 then ([], out @ [b]) else (b, out))"

definition basicTokens :: "golib \<Rightarrow> string \<Rightarrow> string list" where
  "basicTokens L s =
     snd (flush (fold (\<lambda>r (b, out).
                         if IsLetter L r \<or> IsDigit L r then (b @ WriteRune L r, out)
                         else flush (b, out))
                      (Runes L (ToLower L s)) ([], [])))"

text \<open>
  The fields of \<open>miniLMOnnx\<close> that tokenization and tensor construction read. The
  constructor \<open>NewMiniLM\<close> sets \<open>maxLen\<close> to 128.
\<close>

record miniLMOnnx =
  tokenizer :: wordPiece
  maxLen :: nat

definition NewMiniLM :: "wordPiece \<Rightarrow> miniLMOnnx" where
  "NewMiniLM tk = \<lparr>tokenizer = tk, maxLen = 128\<rparr>"

text \<open>
  \<open>encode\<close>. \<open>encode_seq\<close> is \<open>seq\<close> before truncation: the piece ids of all basic
  tokens between \<open>clsID\<close> and \<open>sepID\<close>. The two arrays are made with \<open>maxLen\<close> zeros and
  then written by index, as in the source; the last loop writes the literal 0.
  The parameter \<open>maxLen\<close> is written \<open>maxLen'\<close> (the record field has the name) and
  is a natural number (the only call passes \<open>m.maxLen\<close>).
\<close>

definition encode_seq :: "golib \<Rightarrow> miniLMOnnx \<Rightarrow> string \<Rightarrow> int list" where
  "encode_seq L m text =
     (let toks = basicTokens L text;
          pieces = fold (\<lambda>w pieces. pieces @ tokenizeWord (tokenizer m) w) toks []
      in [clsID (tokenizer m)] @ pieces @ [sepID (tokenizer m)])"

definition encode :: "golib \<Rightarrow> miniLMOnnx \<Rightarrow> string \<Rightarrow> nat \<Rightarrow> int list \<times> int list" where
  "encode L m text maxLen' =
     (let seq0 = encode_seq L m text;
          seq = (if length seq0 > maxLen' then take maxLen' seq0 else seq0);
          ids0 = replicate maxLen' (0 :: int);
          mask0 = replicate maxLen' (0 :: int);
          (ids1, mask) = fold (\<lambda>(i, v) (ids, mask). (ids[i := v], mask[i := 1]))
                              (enumerate 0 seq) (ids0, mask0);
          ids = fold (\<lambda>i ids. ids[i := 0]) [length seq..<maxLen'] ids1
      in (ids, mask))"

definition batchTokenize :: "golib \<Rightarrow> miniLMOnnx \<Rightarrow> string list \<Rightarrow> nat \<Rightarrow> int list list \<times> int list list" where
  "batchTokenize L m texts maxLen' =
     (map (\<lambda>t. fst (encode L m t maxLen')) texts, map (\<lambda>t. snd (encode L m t maxLen')) texts)"

text \<open>
  The input tensors of \<open>Embed\<close>, up to the call of the session: the flat arrays
  \<open>inputIDs\<close>, \<open>attMask\<close> and \<open>ttiData\<close> of shape \<open>(bsz, seq)\<close>. \<open>copy_row dst i seq src\<close>
  is \<open>copy(dst[i*seq:(i+1)*seq], src)\<close>, which copies as many elements as the shorter
  of the two has. An empty input list returns before any tensor is built (\<open>None\<close>).
\<close>

definition copy_row :: "int list \<Rightarrow> nat \<Rightarrow> nat \<Rightarrow> int list \<Rightarrow> int list" where
  "copy_row dst i seq src =
     (let n = min seq (length src)
      in take (i * seq) dst @ take n src @ drop (i * seq + n) dst)"

definition Embed_tensors :: "golib \<Rightarrow> miniLMOnnx \<Rightarrow> string list \<Rightarrow> (int list \<times> int list \<times> int list) option" where
  "Embed_tensors L m inputs =
     (if length inputs = 0 then None
      else
        (let (ids, masks) = batchTokenize L m inputs (maxLen m);
             bsz = length inputs;
             seq = maxLen m;
             inputIDs = fold (\<lambda>i dst. copy_row dst i seq (ids ! i)) [0..<bsz] (replicate (bsz * seq) 0);
             attMask = fold (\<lambda>i dst. copy_row dst i seq (masks ! i)) [0..<bsz] (replicate (bsz * seq) 0);
             ttiData = replicate (bsz * seq) 0
         in Some (inputIDs, attMask, ttiData)))"

subsection \<open>What the loops of \<open>encode\<close> and \<open>Embed\<close> compute\<close>

lemma encode_write_loop:
  "k + length seq \<le> length ids \<Longrightarrow> length msk = length ids \<Longrightarrow>
   fold (\<lambda>(i, v) (ids, mask). (ids[i := v], mask[i := 1])) (enumerate k seq) (ids, msk)
     = (take k ids @ seq @ drop (k + length seq) ids,
        take k msk @ replicate (length seq) 1 @ drop (k + length seq) msk)"
proof (induction seq arbitrary: k ids msk)
  case Nil
  then show ?case by simp
next
  case (Cons v seq)
  from Cons.prems have k: "k < length ids" "k < length msk" by simp_all
  have "fold (\<lambda>(i, v) (ids, mask). (ids[i := v], mask[i := 1])) (enumerate k (v # seq)) (ids, msk)
      = fold (\<lambda>(i, v) (ids, mask). (ids[i := v], mask[i := 1])) (enumerate (Suc k) seq)
          (ids[k := v], msk[k := 1])"
    by simp
  also have "\<dots> = (take (Suc k) (ids[k := v]) @ seq @ drop (Suc k + length seq) (ids[k := v]),
        take (Suc k) (msk[k := 1]) @ replicate (length seq) 1
          @ drop (Suc k + length seq) (msk[k := 1]))"
    using Cons.prems by (intro Cons.IH) simp_all
  also have "take (Suc k) (ids[k := v]) = take k ids @ [v]"
    using k by (simp add: take_Suc_conv_app_nth)
  also have "take (Suc k) (msk[k := 1]) = take k msk @ [1]"
    using k by (simp add: take_Suc_conv_app_nth)
  finally show ?case
    by (simp add: replicate_app_Cons_same)
qed

lemma encode_zero_loop:
  "n \<le> length ids \<Longrightarrow> (\<And>i. a \<le> i \<Longrightarrow> i < n \<Longrightarrow> ids ! i = (0 :: int)) \<Longrightarrow>
   fold (\<lambda>i ids. ids[i := 0]) [a..<n] ids = ids"
proof (induction n)
  case 0
  then show ?case by simp
next
  case (Suc n)
  show ?case
  proof (cases "a \<le> n")
    case True
    from Suc.prems have "fold (\<lambda>i ids. ids[i := 0]) [a..<n] ids = ids"
      by (intro Suc.IH) simp_all
    moreover from Suc.prems True have "ids ! n = 0" by simp
    then have "ids[n := 0] = ids" using list_update_id [of ids n] by simp
    ultimately show ?thesis using True by simp
  next
    case False
    then show ?thesis by simp
  qed
qed

lemma encode_eq:
  "encode L m text n =
     (take n (encode_seq L m text) @ replicate (n - length (encode_seq L m text)) 0,
      replicate (min n (length (encode_seq L m text))) 1
        @ replicate (n - length (encode_seq L m text)) 0)"
proof -
  let ?s0 = "encode_seq L m text"
  let ?seq = "take n ?s0"
  let ?pad = "replicate (n - length ?s0) (0 :: int)"
  have seq_eq: "(if n < length ?s0 then take n ?s0 else ?s0) = ?seq" by simp
  have dr: "drop (length ?seq) (replicate n (0 :: int)) = ?pad" by simp
  have w: "fold (\<lambda>(i, v) (ids, mask). (ids[i := v], mask[i := 1])) (enumerate 0 ?seq)
             (replicate n 0, replicate n 0)
           = (?seq @ ?pad, replicate (length ?seq) 1 @ ?pad)"
  proof -
    have "0 + length ?seq \<le> length (replicate n (0 :: int))" by simp
    moreover have "length (replicate n (0 :: int)) = length (replicate n (0 :: int))" by simp
    ultimately have "fold (\<lambda>(i, v) (ids, mask). (ids[i := v], mask[i := 1])) (enumerate 0 ?seq)
             (replicate n (0 :: int), replicate n (0 :: int))
           = (take 0 (replicate n 0) @ ?seq @ drop (0 + length ?seq) (replicate n 0),
              take 0 (replicate n 0) @ replicate (length ?seq) 1
                @ drop (0 + length ?seq) (replicate n 0))"
      by (rule encode_write_loop)
    then show ?thesis
      by (simp only: dr take_0 append_Nil add_0)
  qed
  have z: "fold (\<lambda>i ids. ids[i := 0]) [length ?seq..<n] (?seq @ ?pad) = ?seq @ ?pad"
  proof (rule encode_zero_loop)
    show "n \<le> length (?seq @ ?pad)" by simp
  next
    fix i assume i: "length ?seq \<le> i" "i < n"
    then have "i - length ?seq < n - length ?s0" by (auto simp: min_def split: if_splits)
    then have "?pad ! (i - length ?seq) = 0" by (rule nth_replicate)
    with i(1) show "(?seq @ ?pad) ! i = 0" by (simp only: nth_append_right)
  qed
  have "encode L m text n = (?seq @ ?pad, replicate (length ?seq) 1 @ ?pad)"
    unfolding encode_def Let_def seq_eq w prod.case z by (rule refl)
  then show ?thesis by (simp add: min.commute)
qed

lemma length_concat_rows:
  "(\<And>r. r \<in> set rows \<Longrightarrow> length r = seq) \<Longrightarrow> length (concat rows) = length rows * seq"
  by (induction rows) simp_all

lemma Embed_copy_loop:
  assumes "\<And>r. r \<in> set rows \<Longrightarrow> length r = seq" and "j \<le> length rows"
  shows "fold (\<lambda>i dst. copy_row dst i seq (rows ! i)) [0..<j] (replicate (length rows * seq) 0)
           = concat (take j rows) @ replicate ((length rows - j) * seq) 0"
  using assms(2)
proof (induction j)
  case 0
  then show ?case by simp
next
  case (Suc j)
  define dst where "dst = concat (take j rows) @ replicate ((length rows - j) * seq) (0 :: int)"
  from Suc have j: "j < length rows" by simp
  have lr: "length (rows ! j) = seq" using assms(1) j by simp
  have "length (concat (take j rows)) = length (take j rows) * seq"
  proof (rule length_concat_rows)
    fix r assume "r \<in> set (take j rows)"
    then have "r \<in> set rows" by (rule in_set_takeD)
    then show "length r = seq" by (rule assms(1))
  qed
  with j have lc: "length (concat (take j rows)) = j * seq" by simp
  from j have "length rows - j = Suc (length rows - Suc j)" by simp
  then have "(length rows - j) * seq = seq + (length rows - Suc j) * seq" by simp
  then have d: "dst = concat (take j rows) @ replicate seq 0 @ replicate ((length rows - Suc j) * seq) 0"
    by (simp add: dst_def replicate_add)
  have "fold (\<lambda>i dst. copy_row dst i seq (rows ! i)) [0..<Suc j] (replicate (length rows * seq) 0)
          = copy_row dst j seq (rows ! j)"
    using Suc j by (simp add: dst_def)
  also have "\<dots> = concat (take j rows) @ rows ! j @ replicate ((length rows - Suc j) * seq) 0"
    using lr lc by (simp add: copy_row_def d)
  finally have "fold (\<lambda>i dst. copy_row dst i seq (rows ! i)) [0..<Suc j] (replicate (length rows * seq) 0)
      = concat (take j rows) @ rows ! j @ replicate ((length rows - Suc j) * seq) 0" .
  moreover have "concat (take (Suc j) rows) = concat (take j rows) @ rows ! j"
    using j by (simp add: take_Suc_conv_app_nth)
  ultimately show ?case by simp
qed

lemma Embed_tensors_eq:
  "Embed_tensors L m inputs =
     (if inputs = [] then None
      else Some (concat (map (\<lambda>t. fst (encode L m t (maxLen m))) inputs),
                 concat (map (\<lambda>t. snd (encode L m t (maxLen m))) inputs),
                 replicate (length inputs * maxLen m) 0))"
proof (cases "inputs = []")
  case True
  then show ?thesis by (simp add: Embed_tensors_def)
next
  case False
  define ids where "ids = map (\<lambda>t. fst (encode L m t (maxLen m))) inputs"
  define masks where "masks = map (\<lambda>t. snd (encode L m t (maxLen m))) inputs"
  have "\<And>r. r \<in> set ids \<Longrightarrow> length r = maxLen m"
    by (auto simp: ids_def encode_eq)
  from Embed_copy_loop [OF this, of ids "length ids"]
  have i: "fold (\<lambda>i dst. copy_row dst i (maxLen m) (ids ! i)) [0..<length inputs]
             (replicate (length inputs * maxLen m) 0) = concat ids"
    by (simp add: ids_def)
  have "\<And>r. r \<in> set masks \<Longrightarrow> length r = maxLen m"
    by (auto simp: masks_def encode_eq)
  from Embed_copy_loop [OF this, of masks "length masks"]
  have k: "fold (\<lambda>i dst. copy_row dst i (maxLen m) (masks ! i)) [0..<length inputs]
             (replicate (length inputs * maxLen m) 0) = concat masks"
    by (simp add: masks_def)
  from False i k show ?thesis
    by (simp add: Embed_tensors_def batchTokenize_def Let_def ids_def [symmetric] masks_def [symmetric])
qed

subsection \<open>Basic tokens do not contain the marker character\<close>

text \<open>
  \<open>#\<close> is neither a letter nor a digit, and the UTF-8 encoding of a letter or digit
  does not contain the byte \<open>#\<close>. Under this assumption on the library every basic
  token is non-empty and free of \<open>#\<close>, so \<open>tokenizeWord\<close> is greedy longest-prefix
  matching on every token that \<open>encode\<close> passes to it.
\<close>

lemma basicTokens_fold_invariant:
  assumes lib: "\<And>r. IsLetter L r \<or> IsDigit L r \<Longrightarrow> CHR ''#'' \<notin> set (WriteRune L r)"
    and "CHR ''#'' \<notin> set b" and "\<forall>t \<in> set out. t \<noteq> [] \<and> CHR ''#'' \<notin> set t"
    and "fold (\<lambda>r (b, out).
                 if IsLetter L r \<or> IsDigit L r then (b @ WriteRune L r, out)
                 else flush (b, out)) rs (b, out) = (b', out')"
  shows "CHR ''#'' \<notin> set b' \<and> (\<forall>t \<in> set out'. t \<noteq> [] \<and> CHR ''#'' \<notin> set t)"
  using assms(2-)
proof (induction rs arbitrary: b out)
  case Nil
  then show ?case by simp
next
  case (Cons r rs)
  show ?case
  proof (cases "IsLetter L r \<or> IsDigit L r")
    case True
    with lib have "CHR ''#'' \<notin> set (WriteRune L r)" by blast
    with Cons.prems(1) have "CHR ''#'' \<notin> set (b @ WriteRune L r)" by simp
    moreover from True Cons.prems(3)
    have "fold (\<lambda>r (b, out).
                 if IsLetter L r \<or> IsDigit L r then (b @ WriteRune L r, out)
                 else flush (b, out)) rs (b @ WriteRune L r, out) = (b', out')"
      by simp
    ultimately show ?thesis using Cons.IH Cons.prems(2) by blast
  next
    case False
    obtain b1 out1 where f: "flush (b, out) = (b1, out1)" by (cases "flush (b, out)")
    then have "CHR ''#'' \<notin> set b1" "\<forall>t \<in> set out1. t \<noteq> [] \<and> CHR ''#'' \<notin> set t"
      using Cons.prems(1,2) by (auto simp: flush_def split: if_splits)
    moreover from False Cons.prems(3) f
    have "fold (\<lambda>r (b, out).
                 if IsLetter L r \<or> IsDigit L r then (b @ WriteRune L r, out)
                 else flush (b, out)) rs (b1, out1) = (b', out')"
      by simp
    ultimately show ?thesis using Cons.IH by blast
  qed
qed

lemma basicTokens_no_marker:
  assumes "\<And>r. IsLetter L r \<or> IsDigit L r \<Longrightarrow> CHR ''#'' \<notin> set (WriteRune L r)"
    and "t \<in> set (basicTokens L s)"
  shows "t \<noteq> [] \<and> CHR ''#'' \<notin> set t"
proof -
  obtain b out where f: "fold (\<lambda>r (b, out).
                 if IsLetter L r \<or> IsDigit L r then (b @ WriteRune L r, out)
                 else flush (b, out)) (Runes L (ToLower L s)) ([], []) = (b, out)"
    by (cases "fold (\<lambda>r (b, out).
                 if IsLetter L r \<or> IsDigit L r then (b @ WriteRune L r, out)
                 else flush (b, out)) (Runes L (ToLower L s)) ([], [])")
  have "CHR ''#'' \<notin> set b \<and> (\<forall>t \<in> set out. t \<noteq> [] \<and> CHR ''#'' \<notin> set t)"
    by (rule basicTokens_fold_invariant [OF assms(1) _ _ f]) simp_all
  moreover from assms(2) f have "t \<in> set (snd (flush (b, out)))"
    by (simp add: basicTokens_def)
  ultimately show ?thesis by (auto simp: flush_def split: if_splits)
qed

lemma ascii_no_marker:
  "IsLetter ascii r \<or> IsDigit ascii r \<Longrightarrow> CHR ''#'' \<notin> set (WriteRune ascii r)"
proof -
  assume a: "IsLetter ascii r \<or> IsDigit ascii r"
  then have r: "48 \<le> r" "r \<le> 122"
    by (auto simp: ascii_def ascii_is_letter_def ascii_is_upper_def ascii_is_digit_def)
  have "char_of r \<noteq> CHR ''#''"
  proof
    assume "char_of r = CHR ''#''"
    then have "(of_char (char_of r) :: nat) = of_char CHR ''#''" by simp
    with r show False by simp
  qed
  then show ?thesis by (simp add: ascii_def)
qed

lemma tokenizeWord_on_basicTokens:
  assumes "\<And>r. IsLetter L r \<or> IsDigit L r \<Longrightarrow> CHR ''#'' \<notin> set (WriteRune L r)"
    and "t \<in> set (basicTokens L s)"
  shows "tokenizeWord w t = wordpiece_spec (vocab w) (unkID w) True t"
proof -
  from basicTokens_no_marker [OF assms] have "CHR ''#'' \<notin> set t" by simp
  then have "\<not> prefix ''##'' t" by (auto simp: prefix_def)
  with tokenizeWord_loop_spec [of "[]" t w] show ?thesis by (simp add: tokenizeWord_def)
qed

section \<open>Direct-lookup tokenizer of the generation path\<close>

text \<open>
  \<open>bpeTokenizer\<close>. Its field \<open>vocab\<close> is written \<open>bpe_vocab\<close> here, since \<open>wordPiece\<close>
  has a field of the same name.
\<close>

record bpeTokenizer =
  bpe_vocab :: "string \<rightharpoonup> int"
  id2token :: "string list"
  eosTokenID :: int

text \<open>\<open>strings.Contains\<close> and \<open>strings.Join\<close>, on bytes.\<close>

fun Contains :: "string \<Rightarrow> string \<Rightarrow> bool" where
  "Contains [] substr = (substr = [])"
| "Contains (c # cs) substr = (prefix substr (c # cs) \<or> Contains cs substr)"

fun Join :: "string list \<Rightarrow> string \<Rightarrow> string" where
  "Join [] sep = []"
| "Join [x] sep = x"
| "Join (x # y # ys) sep = x @ sep @ Join (y # ys) sep"

text \<open>
  \<open>loadBPETokenizer\<close>, after \<open>json.Unmarshal\<close> has filled the struct: \<open>entries\<close> is the
  map \<open>Model.Vocab\<close> in the order in which \<open>range\<close> visits it (a Go map holds every
  key once, so \<open>len(t.Model.Vocab)\<close> is the number of entries), \<open>added\<close> the list
  \<open>AddedTokens\<close> as pairs of \<open>ID\<close> and \<open>Content\<close>.
\<close>

definition loadBPETokenizer :: "golib \<Rightarrow> (string \<times> int) list \<Rightarrow> (int \<times> string) list \<Rightarrow> bpeTokenizer" where
  "loadBPETokenizer L entries added =
     (let vocab_map = map_of entries;
          id2 = fold (\<lambda>(tok, i) id2.
                        if i \<ge> 0 \<and> i < int (length id2) then id2[nat i := tok] else id2)
                     entries (replicate (length entries) []);
          eos = (case filter (\<lambda>(i, content).
                                Contains (ToLower L content) ''eos'' \<or> content = ''<|endoftext|>'')
                             added of
                   [] \<Rightarrow> -1
                 | (i, content) # _ \<Rightarrow> i)
      in \<lparr>bpe_vocab = vocab_map, id2token = id2, eosTokenID = eos\<rparr>)"

definition Encode :: "golib \<Rightarrow> bpeTokenizer \<Rightarrow> string \<Rightarrow> int list" where
  "Encode L t s =
     (let parts = Fields L s;
          ids = fold (\<lambda>p ids. case bpe_vocab t p of
                                 Some i \<Rightarrow> ids @ [i]
                               | None \<Rightarrow> ids @ [0])
                     parts []
      in if length ids = 0 then [0] else ids)"

definition Decode :: "bpeTokenizer \<Rightarrow> int list \<Rightarrow> string" where
  "Decode t ids =
     Join (fold (\<lambda>i parts.
                   if i \<ge> 0 \<and> i < int (length (id2token t)) \<and> id2token t ! nat i \<noteq> []
                   then parts @ [id2token t ! nat i] else parts)
                ids [])
          '' ''"

definition IsEOS :: "bpeTokenizer \<Rightarrow> int \<Rightarrow> bool" where
  "IsEOS t i = (eosTokenID t \<ge> 0 \<and> i = eosTokenID t)"

lemma Encode_fold_length:
  "length (fold (\<lambda>p ids. case v p of Some i \<Rightarrow> ids @ [i] | None \<Rightarrow> ids @ [0 :: int]) parts acc)
     = length acc + length parts"
  by (induction parts arbitrary: acc) (auto split: option.splits)

lemma Encode_nonempty: "Encode L t s \<noteq> []"
  by (simp add: Encode_def Let_def)

lemma Encode_no_fields: "Fields L s = [] \<Longrightarrow> Encode L t s = [0]"
  by (simp add: Encode_def)

lemma Encode_length: "Fields L s \<noteq> [] \<Longrightarrow> length (Encode L t s) = length (Fields L s)"
proof -
  assume ne: "Fields L s \<noteq> []"
  let ?ids = "fold (\<lambda>p ids. case bpe_vocab t p of Some i \<Rightarrow> ids @ [i] | None \<Rightarrow> ids @ [0])
                (Fields L s) []"
  have len: "length ?ids = length (Fields L s)"
    using Encode_fold_length [of "bpe_vocab t" "Fields L s" "[]"] by simp
  with ne have "length ?ids \<noteq> 0" by simp
  then have "Encode L t s = ?ids" by (simp add: Encode_def Let_def)
  with len show "length (Encode L t s) = length (Fields L s)" by simp
qed

section \<open>Claims about the tokenizers and the embedding tensors\<close>

text \<open>
  A vocabulary file whose line 2 is \<open>[PAD]\<close>, used to evaluate \<open>loadWordPiece\<close> and
  \<open>encode\<close> on an example.
\<close>

definition pad2_vocab_file :: string where
  "pad2_vocab_file =
     concat (map (\<lambda>l. l @ [CHR 0x0A]) [''[UNK]'', ''[CLS]'', ''[PAD]'', ''[SEP]'', ''hello''])"

text \<open>
  C6. For every text the encoder returns an id array and a mask array of exactly
  \<open>maxLen\<close> entries: the wrapped sequence cut to its first \<open>maxLen\<close> ids, then the
  literal 0 under mask 0 up to \<open>maxLen\<close>. The literal 0 is the pad id when the pad
  id of the vocabulary is 0. \<open>Embed\<close> lays the rows out in tensors of width \<open>m.maxLen\<close>,
  which \<open>NewMiniLM\<close> sets to 128, and the token-type tensor is all zeros.
\<close>

theorem encode_width_and_zero_padding:
  "length (fst (encode L m text n)) = n
   \<and> length (snd (encode L m text n)) = n
   \<and> fst (encode L m text n)
       = take n (encode_seq L m text) @ replicate (n - length (encode_seq L m text)) 0
   \<and> snd (encode L m text n)
       = replicate (min n (length (encode_seq L m text))) 1
           @ replicate (n - length (encode_seq L m text)) 0
   \<and> (padID (tokenizer m) = 0 \<longrightarrow>
        fst (encode L m text n)
          = take n (encode_seq L m text)
              @ replicate (n - length (encode_seq L m text)) (padID (tokenizer m)))
   \<and> Embed_tensors L m inputs
       = (if inputs = [] then None
          else Some (concat (map (\<lambda>t. fst (encode L m t (maxLen m))) inputs),
                     concat (map (\<lambda>t. snd (encode L m t (maxLen m))) inputs),
                     replicate (length inputs * maxLen m) 0))
   \<and> maxLen (NewMiniLM tk) = 128"
  by (auto simp: encode_eq Embed_tensors_eq NewMiniLM_def min_def)

theorem encode_width_and_zero_padding_witness:
  "padID (tokenizer (NewMiniLM demo_wordPiece)) = 0
   \<and> fst (encode ascii (NewMiniLM demo_wordPiece) ''Unaffable!'' 128)
       = [101, 1, 2, 3, 102] @ replicate 123 (padID (tokenizer (NewMiniLM demo_wordPiece)))
   \<and> snd (encode ascii (NewMiniLM demo_wordPiece) ''Unaffable!'' 128)
       = [1, 1, 1, 1, 1] @ replicate 123 0"
proof -
  have s: "encode_seq ascii (NewMiniLM demo_wordPiece) ''Unaffable!'' = [101, 1, 2, 3, 102]"
    by code_simp
  have p: "padID (tokenizer (NewMiniLM demo_wordPiece)) = 0"
    by (simp add: NewMiniLM_def demo_wordPiece_def)
  from encode_width_and_zero_padding
    [of ascii "NewMiniLM demo_wordPiece" "''Unaffable!''" 128 "[]" demo_wordPiece]
  show ?thesis using p by (simp add: s)
qed

text \<open>
  With \<open>[PAD]\<close> on line 2 of the vocabulary file the pad id is 2, and the positions
  after the wrapped sequence still hold 0 (here the id of \<open>[UNK]\<close>), not the pad id.
\<close>

theorem encode_pads_with_zero_not_padID:
  "(case loadWordPiece ascii (Some pad2_vocab_file) of
      Inl e \<Rightarrow> False
    | Inr tk \<Rightarrow>
        padID tk = 2
        \<and> take 4 (fst (encode ascii (NewMiniLM tk) ''hello'' 128)) = [1, 4, 3, 0]
        \<and> take 4 (snd (encode ascii (NewMiniLM tk) ''hello'' 128)) = [1, 1, 1, 0]
        \<and> fst (encode ascii (NewMiniLM tk) ''hello'' 128) ! 3 \<noteq> padID tk)"
  by code_simp


text \<open>
  C9. In the arrays that \<open>encode\<close> returns the mask is 1 on the first \<open>k\<close> positions,
  those of the wrapped (and cut) sequence, and 0 on all later ones; no 1 follows a 0;
  and every position with mask 0 holds the literal id 0.
\<close>

theorem encode_mask_is_prefix:
  assumes "encode L m text n = (ids, msk)"
    and "k = min n (length (encode_seq L m text))"
  shows "msk = replicate k 1 @ replicate (n - k) 0
    \<and> take k ids = take n (encode_seq L m text)
    \<and> drop k ids = replicate (n - k) 0
    \<and> (\<forall>i < n. (msk ! i = 1 \<longleftrightarrow> i < k) \<and> (msk ! i = 0 \<longleftrightarrow> k \<le> i))
    \<and> (\<forall>i j. i < j \<and> j < n \<and> msk ! i = 0 \<longrightarrow> msk ! j = 0)
    \<and> (\<forall>i < n. msk ! i = 0 \<longrightarrow> ids ! i = 0)"
proof -
  let ?s = "encode_seq L m text"
  have nk: "n - length ?s = n - k" using assms(2) by (simp add: min_def)
  have lt: "length (take n ?s) = k" using assms(2) by (simp add: min.commute)
  from assms(1) have ids: "ids = take n ?s @ replicate (n - k) 0"
    and msk: "msk = replicate k 1 @ replicate (n - k) 0"
    using assms(2) by (simp_all add: encode_eq nk)
  have kn: "k \<le> n" using assms(2) by simp
  have m: "msk ! i = (if i < k then 1 else 0)" if "i < n" for i
    using that kn by (simp add: msk nth_append)
  have z: "ids ! i = 0" if "i < n" "k \<le> i" for i
  proof -
    from that lt have "ids ! i = replicate (n - k) 0 ! (i - k)"
      by (simp only: ids nth_append_right)
    moreover from that have "i - k < n - k" by simp
    ultimately show ?thesis by simp
  qed
  show ?thesis
  proof (intro conjI allI impI)
    show "msk = replicate k 1 @ replicate (n - k) 0" by (rule msk)
    show "take k ids = take n ?s" using ids lt by (metis append_eq_conv_conj)
    show "drop k ids = replicate (n - k) 0" using ids lt by (metis append_eq_conv_conj)
  next
    fix i assume "i < n"
    then show "msk ! i = 1 \<longleftrightarrow> i < k" by (simp add: m)
  next
    fix i assume "i < n"
    then show "msk ! i = 0 \<longleftrightarrow> k \<le> i" by (auto simp: m)
  next
    fix i j assume a: "i < j \<and> j < n \<and> msk ! i = 0"
    then have "i < n" by simp
    with a have "k \<le> i" by (auto simp: m split: if_splits)
    with a show "msk ! j = 0" by (simp add: m)
  next
    fix i assume "i < n" "msk ! i = 0"
    then have "k \<le> i" by (auto simp: m split: if_splits)
    with \<open>i < n\<close> show "ids ! i = 0" by (rule z)
  qed
qed

theorem encode_mask_is_prefix_witness:
  "encode ascii (NewMiniLM demo_wordPiece) ''Unaffable!'' 8
     = ([101, 1, 2, 3, 102, 0, 0, 0], [1, 1, 1, 1, 1, 0, 0, 0])
   \<and> (5 :: nat) = min 8 (length (encode_seq ascii (NewMiniLM demo_wordPiece) ''Unaffable!''))
   \<and> (6 :: nat) < 8
   \<and> [1, 1, 1, 1, 1, 0, 0, 0 :: int] ! 6 = 0
   \<and> [101, 1, 2, 3, 102, 0, 0, 0 :: int] ! 6 = 0"
proof -
  have s: "encode_seq ascii (NewMiniLM demo_wordPiece) ''Unaffable!'' = [101, 1, 2, 3, 102]"
    by code_simp
  have e: "encode ascii (NewMiniLM demo_wordPiece) ''Unaffable!'' 8
     = ([101, 1, 2, 3, 102, 0, 0, 0], [1, 1, 1, 1, 1, 0, 0, 0])"
    by (simp add: encode_eq s numeral_eq_Suc)
  have k: "(5 :: nat) = min 8 (length (encode_seq ascii (NewMiniLM demo_wordPiece) ''Unaffable!''))"
    by (simp add: s)
  have m: "[1, 1, 1, 1, 1, 0, 0, 0 :: int] ! 6 = 0" by simp
  from encode_mask_is_prefix [OF e k]
  have "\<forall>i < 8. [1, 1, 1, 1, 1, 0, 0, 0 :: int] ! i = 0 \<longrightarrow> [101, 1, 2, 3, 102, 0, 0, 0 :: int] ! i = 0"
    by blast
  then have "(6 :: nat) < 8 \<longrightarrow> [1, 1, 1, 1, 1, 0, 0, 0 :: int] ! 6 = 0
      \<longrightarrow> [101, 1, 2, 3, 102, 0, 0, 0 :: int] ! 6 = 0"
    by (rule spec)
  with m have "[101, 1, 2, 3, 102, 0, 0, 0 :: int] ! 6 = 0" by simp
  with e k m show ?thesis by simp
qed

text \<open>
  C7. \<open>Encode\<close> of the generation path never returns an empty sequence: a string with
  no field gives the single id 0, any other string one id per field. The encoder of
  the embedding path returns, for a positive width, arrays that start with the
  sequence-start id \<open>clsID\<close>; the width that \<open>NewMiniLM\<close> configures is positive.
\<close>

theorem Encode_never_empty:
  "Encode L t s \<noteq> []
   \<and> (Fields L s = [] \<longrightarrow> Encode L t s = [0])
   \<and> (Fields L s \<noteq> [] \<longrightarrow> length (Encode L t s) = length (Fields L s))
   \<and> encode_seq L m text \<noteq> []
   \<and> hd (encode_seq L m text) = clsID (tokenizer m)
   \<and> (0 < n \<longrightarrow> fst (encode L m text n) \<noteq> []
                 \<and> hd (fst (encode L m text n)) = clsID (tokenizer m)
                 \<and> clsID (tokenizer m) \<in> set (fst (encode L m text n)))
   \<and> 0 < maxLen (NewMiniLM tk)"
proof -
  have 1: "Encode L t s \<noteq> []"
    by (rule Encode_nonempty)
  have 2: "Fields L s = [] \<longrightarrow> Encode L t s = [0]"
    by (simp add: Encode_no_fields)
  have 3: "Fields L s \<noteq> [] \<longrightarrow> length (Encode L t s) = length (Fields L s)"
    by (simp add: Encode_length)
  have 4: "encode_seq L m text \<noteq> []" "hd (encode_seq L m text) = clsID (tokenizer m)"
    by (simp_all add: encode_seq_def Let_def)
  have 5: "fst (encode L m text n) \<noteq> []
           \<and> hd (fst (encode L m text n)) = clsID (tokenizer m)
           \<and> clsID (tokenizer m) \<in> set (fst (encode L m text n))" if "0 < n"
  proof -
    from that 4(1) obtain x xs where x: "take n (encode_seq L m text) = x # xs"
      by (cases "take n (encode_seq L m text)") auto
    with that 4 have "x = clsID (tokenizer m)"
      by (metis hd_take list.sel(1))
    with x show ?thesis by (simp add: encode_eq)
  qed
  show ?thesis using 1 2 3 4 5 by (simp add: NewMiniLM_def)
qed

definition the_only_tok :: bpeTokenizer where
  "the_only_tok = loadBPETokenizer ascii [(''the'', 5)] []"

theorem Encode_never_empty_witness:
  "Fields ascii ''   '' = [] \<and> Encode ascii the_only_tok ''   '' = [0]
   \<and> Fields ascii ''the  dog'' \<noteq> []
   \<and> length (Encode ascii the_only_tok ''the  dog'') = length (Fields ascii ''the  dog'')
   \<and> Encode ascii the_only_tok ''the  dog'' = [5, 0]
   \<and> (0 :: nat) < 128
   \<and> hd (fst (encode ascii (NewMiniLM demo_wordPiece) [] 128)) = 101"
proof -
  have a: "Fields ascii ''   '' = []" by code_simp
  have b: "Fields ascii ''the  dog'' \<noteq> []" by code_simp
  have c: "Encode ascii the_only_tok ''the  dog'' = [5, 0]"
    by code_simp
  have d: "clsID (tokenizer (NewMiniLM demo_wordPiece)) = 101"
    by (simp add: NewMiniLM_def demo_wordPiece_def)
  from Encode_never_empty [of ascii the_only_tok "''   ''" "NewMiniLM demo_wordPiece" "[]" 128
      demo_wordPiece] a d
  have 1: "Encode ascii the_only_tok ''   '' = [0]"
    "hd (fst (encode ascii (NewMiniLM demo_wordPiece) [] 128)) = 101"
    by simp_all
  from Encode_never_empty [of ascii the_only_tok "''the  dog''" "NewMiniLM demo_wordPiece" "[]" 128
      demo_wordPiece] b
  have 2: "length (Encode ascii the_only_tok ''the  dog'') = length (Fields ascii ''the  dog'')"
    by simp
  from a b c 1 2 show ?thesis by simp
qed

section \<open>Greedy generation\<close>

subsection \<open>Logits and \<open>argmax\<close>\<close>

text \<open>
  \<open>argmax\<close> only compares \<open>float32\<close> values. A \<open>float32\<close> is a finite real number
  (the two zeros compare equal), an infinity or a NaN; \<open>f32_gt x y\<close> is Go's \<open>x > y\<close>,
  which is false whenever one side is a NaN. The start value \<open>float32(-1e30)\<close> is
  the \<open>float32\<close> nearest to \<open>-1e30\<close>.
\<close>

datatype float32 = Finite real | PosInf | NegInf | NaN

fun f32_gt :: "float32 \<Rightarrow> float32 \<Rightarrow> bool" where
  "f32_gt NaN y = False"
| "f32_gt x NaN = False"
| "f32_gt PosInf y = (y \<noteq> PosInf)"
| "f32_gt NegInf y = False"
| "f32_gt (Finite a) PosInf = False"
| "f32_gt (Finite a) NegInf = True"
| "f32_gt (Finite a) (Finite b) = (a > b)"

definition argmax :: "float32 list \<Rightarrow> int" where
  "argmax v =
     snd (fold (\<lambda>(i, x) (mx, idx). if f32_gt x mx then (x, int i) else (mx, idx))
               (enumerate 0 v)
               (Finite (- 1000000015047466219876688855040), 0))"

subsection \<open>The ONNX runtime as a parameter\<close>

text \<open>
  The runtime is not code of the repository. \<open>NewTensor shape data\<close> is the error of
  \<open>ort.NewTensor\<close> (\<open>None\<close> for \<open>nil\<close>); \<open>Run ids mask pos\<close> is the error of
  \<open>session.Run\<close> on the three input tensors or the value it leaves in \<open>outputs[0]\<close>,
  which is a \<open>float32\<close> tensor with its shape and flat data, or a value of another
  type.
\<close>

datatype ort_value = Float32Tensor "int list" "float32 list" | OtherValue

record ort =
  NewTensor :: "int list \<Rightarrow> int list \<Rightarrow> go_error option"
  Run :: "int list \<Rightarrow> int list \<Rightarrow> int list \<Rightarrow> go_error + ort_value"

text \<open>
  The slice expression \<open>data[lo:hi]\<close>: it panics (\<open>None\<close>) unless
  \<open>0 \<le> lo \<le> hi \<le> cap(data)\<close>; the capacity of the tensor's data is its length.
\<close>

definition go_slice :: "'a list \<Rightarrow> int \<Rightarrow> int \<Rightarrow> 'a list option" where
  "go_slice xs lo hi =
     (if 0 \<le> lo \<and> lo \<le> hi \<and> hi \<le> int (length xs)
      then Some (take (nat (hi - lo)) (drop (nat lo) xs)) else None)"

subsection \<open>The state of a generation\<close>

text \<open>
  The fields of \<open>QwenONNX\<close> that generation reads; \<open>maxLen\<close> is written \<open>qMaxLen\<close>
  (\<open>miniLMOnnx\<close> has a field of the same name). \<open>NewQwenONNX\<close> sets it to 512.
\<close>

record QwenONNX =
  tok :: bpeTokenizer
  qMaxLen :: nat

definition NewQwenONNX :: "bpeTokenizer \<Rightarrow> QwenONNX" where
  "NewQwenONNX tk = \<lparr>tok = tk, qMaxLen = 512\<rparr>"

text \<open>
  The local variables of the two loops: the sequence \<open>ids\<close>, the counter \<open>t\<close>, the
  text \<open>outText\<close> (unused by \<open>Generate\<close>), and two logs of the effects: the inputs of
  every call of \<open>session.Run\<close> and the argument of every call of the callback.
\<close>

record gen_state =
  g_ids :: "int list"
  g_t :: int
  g_outText :: string
  g_runs :: "(int list \<times> int list \<times> int list) list"
  g_cb :: "string list"

text \<open>
  How a loop is left: by \<open>break\<close> on the end-of-sequence id, by \<open>t\<close> reaching
  \<open>maxTokens\<close>, by the context being done, by returning an error, or by a panic.
\<close>

datatype stop = EndOfSequence | BudgetExhausted | Cancelled ctx_err | Failed go_error | Panicked

text \<open>What a Go function of type \<open>(string, error)\<close> gives back, unless it panics.\<close>

datatype go_return = Return string "go_error option" | Panic

text \<open>
  A context, as the loop sees it: \<open>ctx t\<close> is \<open>ctx.Err()\<close> when the \<open>select\<close> of
  iteration \<open>t\<close> finds \<open>ctx.Done()\<close> closed, and \<open>None\<close> when it takes the default
  branch.
\<close>

type_synonym go_ctx = "nat \<Rightarrow> ctx_err option"

text \<open>
  The statements that both loops share (lines 84 to 109 of \<open>Generate\<close>, 127 to 146 of
  \<open>GenerateWithCallback\<close>): build mask and position ids, create the three tensors,
  run the session, check the type and rank of the logits, and take the \<open>argmax\<close> of
  the row of the last position. The index arithmetic is on unbounded integers: the
  dimensions are those of a tensor held in memory, so Go's 64-bit \<open>int\<close> does not wrap.
\<close>

datatype forward_result = NextID int | ForwardError go_error | ForwardPanic

definition forward :: "ort \<Rightarrow> gen_state \<Rightarrow> forward_result \<times> gen_state" where
  "forward rt st =
     (let ids = g_ids st;
          msk = map (\<lambda>i. 1) [0..<length ids];
          pos = map int [0..<length ids];
          shp = [1, int (length ids)]
      in case NewTensor rt shp ids of Some e \<Rightarrow> (ForwardError e, st) | None \<Rightarrow>
         (case NewTensor rt shp msk of Some e \<Rightarrow> (ForwardError e, st) | None \<Rightarrow>
         (case NewTensor rt shp pos of Some e \<Rightarrow> (ForwardError e, st) | None \<Rightarrow>
         (let st' = st\<lparr>g_runs := g_runs st @ [(ids, msk, pos)]\<rparr>
          in case Run rt ids msk pos of
               Inl e \<Rightarrow> (ForwardError e, st')
             | Inr OtherValue \<Rightarrow> (ForwardError UnexpectedLogitsType, st')
             | Inr (Float32Tensor shape data) \<Rightarrow>
                 if length shape \<noteq> 3 then (ForwardError (UnexpectedLogitsShape shape), st')
                 else (let vocab = shape ! 2;
                           start = vocab * (shape ! 1 - 1)
                       in case go_slice data start (start + vocab) of
                            None \<Rightarrow> (ForwardPanic, st')
                          | Some row \<Rightarrow> (NextID (argmax row), st'))))))"

lemma forward_frame:
  "forward rt st = (r, st') \<Longrightarrow>
     g_t st' = g_t st \<and> g_ids st' = g_ids st \<and> g_outText st' = g_outText st
     \<and> g_cb st' = g_cb st
     \<and> (g_runs st' = g_runs st \<or> (\<exists>x. g_runs st' = g_runs st @ [x]))"
  by (auto simp: forward_def Let_def split: option.splits sum.splits ort_value.splits if_splits)

definition gen_init :: "int list \<Rightarrow> gen_state" where
  "gen_init ids = \<lparr>g_ids = ids, g_t = 0, g_outText = [], g_runs = [], g_cb = []\<rparr>"

subsection \<open>\<open>Generate\<close>\<close>

text \<open>
  One iteration of the loop of \<open>Generate\<close>: it leaves the loop (\<open>Inl\<close>, with the way it
  is left) or gives the state in which the next iteration starts (\<open>Inr\<close>, with \<open>t\<close>
  incremented).
\<close>

definition Generate_body :: "QwenONNX \<Rightarrow> ort \<Rightarrow> gen_state \<Rightarrow> (stop \<times> gen_state) + gen_state" where
  "Generate_body q rt st =
     (case forward rt st of
        (ForwardError e, st') \<Rightarrow> Inl (Failed e, st')
      | (ForwardPanic, st') \<Rightarrow> Inl (Panicked, st')
      | (NextID nextID, st') \<Rightarrow>
          (let ids = g_ids st' @ [nextID];
               ids = (if length ids > qMaxLen q then drop 1 ids else ids);
               st'' = st'\<lparr>g_ids := ids\<rparr>
           in if IsEOS (tok q) nextID then Inl (EndOfSequence, st'')
              else Inr (st''\<lparr>g_t := g_t st'' + 1\<rparr>)))"

lemma Generate_body_t: "Generate_body q rt st = Inr st' \<Longrightarrow> g_t st' = g_t st + 1"
  by (auto simp: Generate_body_def Let_def dest: forward_frame
      split: prod.splits forward_result.splits if_splits)

function Generate_loop :: "QwenONNX \<Rightarrow> ort \<Rightarrow> int \<Rightarrow> gen_state \<Rightarrow> stop \<times> gen_state" where
  "Generate_loop q rt maxTokens st =
     (if g_t st < maxTokens then
        (case Generate_body q rt st of
           Inl left \<Rightarrow> left
         | Inr st' \<Rightarrow> Generate_loop q rt maxTokens st')
      else (BudgetExhausted, st))"
  by pat_completeness auto
termination
proof (relation "measure (\<lambda>(q, rt, maxTokens, st). nat (maxTokens - g_t st))")
  show "wf (measure (\<lambda>(q, rt, maxTokens, st). nat (maxTokens - g_t st)))" by simp
next
  fix q :: QwenONNX and rt :: ort and maxTokens :: int and st st' :: gen_state
  assume "g_t st < maxTokens" and "Generate_body q rt st = Inr st'"
  then show "((q, rt, maxTokens, st'), (q, rt, maxTokens, st))
          \<in> measure (\<lambda>(q, rt, maxTokens, st). nat (maxTokens - g_t st))"
    using Generate_body_t [of q rt st st'] by simp
qed

declare Generate_loop.simps [simp del]

text \<open>
  \<open>Generate\<close>: \<open>Generate_run\<close> is the function up to the point where the loop is left,
  \<open>Generate\<close> the value returned from there. The context is a parameter that the
  function never reads, and its loop is never left by cancellation.
\<close>

definition Generate_run :: "golib \<Rightarrow> QwenONNX \<Rightarrow> ort \<Rightarrow> go_ctx \<Rightarrow> string \<Rightarrow> int \<Rightarrow> stop \<times> gen_state" where
  "Generate_run L q rt ctx prompt maxTokens =
     (let maxTokens = (if maxTokens \<le> 0 then 64 else maxTokens);
          ids = Encode L (tok q) prompt;
          ids = (if length ids > qMaxLen q then drop (length ids - qMaxLen q) ids else ids)
      in Generate_loop q rt maxTokens (gen_init ids))"

definition Generate :: "golib \<Rightarrow> QwenONNX \<Rightarrow> ort \<Rightarrow> go_ctx \<Rightarrow> string \<Rightarrow> int \<Rightarrow> go_return" where
  "Generate L q rt ctx prompt maxTokens =
     (case Generate_run L q rt ctx prompt maxTokens of
        (EndOfSequence, st) \<Rightarrow> Return (Decode (tok q) (g_ids st)) None
      | (BudgetExhausted, st) \<Rightarrow> Return (Decode (tok q) (g_ids st)) None
      | (Cancelled e, st) \<Rightarrow> Return [] (Some (ContextError e))
      | (Failed e, st) \<Rightarrow> Return [] (Some e)
      | (Panicked, st) \<Rightarrow> Panic)"

subsection \<open>\<open>GenerateWithCallback\<close>\<close>

text \<open>
  One iteration of the loop of \<open>GenerateWithCallback\<close>. The callback is \<open>nil\<close> or not
  (\<open>cb\<close>); a call of it is logged in \<open>g_cb\<close>. On the end-of-sequence id the loop is left
  after the id is appended and before \<open>outText\<close> is decoded again. The sequence is
  not cut after the append.
\<close>

definition GenerateWithCallback_body ::
    "QwenONNX \<Rightarrow> ort \<Rightarrow> go_ctx \<Rightarrow> bool \<Rightarrow> gen_state \<Rightarrow> (stop \<times> gen_state) + gen_state" where
  "GenerateWithCallback_body q rt ctx cb st =
     (case ctx (nat (g_t st)) of
        Some e \<Rightarrow> Inl (Cancelled e, st)
      | None \<Rightarrow>
         (case forward rt st of
            (ForwardError e, st') \<Rightarrow> Inl (Failed e, st')
          | (ForwardPanic, st') \<Rightarrow> Inl (Panicked, st')
          | (NextID nextID, st') \<Rightarrow>
              (let st2 = st'\<lparr>g_ids := g_ids st' @ [nextID]\<rparr>
               in if IsEOS (tok q) nextID then Inl (EndOfSequence, st2)
                  else
                    (let outText = Decode (tok q) (g_ids st2);
                         st3 = st2\<lparr>g_outText := outText,
                                   g_cb := (if cb then g_cb st2 @ [outText] else g_cb st2)\<rparr>
                     in Inr (st3\<lparr>g_t := g_t st3 + 1\<rparr>)))))"

lemma GenerateWithCallback_body_t:
  "GenerateWithCallback_body q rt ctx cb st = Inr st' \<Longrightarrow> g_t st' = g_t st + 1"
  by (auto simp: GenerateWithCallback_body_def Let_def dest: forward_frame
      split: option.splits prod.splits forward_result.splits if_splits)

function GenerateWithCallback_loop ::
    "QwenONNX \<Rightarrow> ort \<Rightarrow> go_ctx \<Rightarrow> bool \<Rightarrow> int \<Rightarrow> gen_state \<Rightarrow> stop \<times> gen_state" where
  "GenerateWithCallback_loop q rt ctx cb maxTokens st =
     (if g_t st < maxTokens then
        (case GenerateWithCallback_body q rt ctx cb st of
           Inl left \<Rightarrow> left
         | Inr st' \<Rightarrow> GenerateWithCallback_loop q rt ctx cb maxTokens st')
      else (BudgetExhausted, st))"
  by pat_completeness auto
termination
proof (relation "measure (\<lambda>(q, rt, ctx, cb, maxTokens, st). nat (maxTokens - g_t st))")
  show "wf (measure (\<lambda>(q, rt, ctx, cb, maxTokens, st). nat (maxTokens - g_t st)))" by simp
next
  fix q :: QwenONNX and rt :: ort and ctx :: go_ctx and cb :: bool and maxTokens :: int
    and st st' :: gen_state
  assume "g_t st < maxTokens" and "GenerateWithCallback_body q rt ctx cb st = Inr st'"
  then show "((q, rt, ctx, cb, maxTokens, st'), (q, rt, ctx, cb, maxTokens, st))
          \<in> measure (\<lambda>(q, rt, ctx, cb, maxTokens, st). nat (maxTokens - g_t st))"
    using GenerateWithCallback_body_t [of q rt ctx cb st st'] by simp
qed

declare GenerateWithCallback_loop.simps [simp del]

definition GenerateWithCallback_run ::
    "golib \<Rightarrow> QwenONNX \<Rightarrow> ort \<Rightarrow> go_ctx \<Rightarrow> bool \<Rightarrow> string \<Rightarrow> int \<Rightarrow> stop \<times> gen_state" where
  "GenerateWithCallback_run L q rt ctx cb prompt maxTokens =
     (let maxTokens = (if maxTokens \<le> 0 then 64 else maxTokens);
          ids = Encode L (tok q) prompt;
          ids = (if length ids > qMaxLen q then drop (length ids - qMaxLen q) ids else ids)
      in GenerateWithCallback_loop q rt ctx cb maxTokens (gen_init ids))"

definition GenerateWithCallback ::
    "golib \<Rightarrow> QwenONNX \<Rightarrow> ort \<Rightarrow> go_ctx \<Rightarrow> bool \<Rightarrow> string \<Rightarrow> int \<Rightarrow> go_return" where
  "GenerateWithCallback L q rt ctx cb prompt maxTokens =
     (case GenerateWithCallback_run L q rt ctx cb prompt maxTokens of
        (EndOfSequence, st) \<Rightarrow> Return (g_outText st) None
      | (BudgetExhausted, st) \<Rightarrow> Return (g_outText st) None
      | (Cancelled e, st) \<Rightarrow> Return (g_outText st) (Some (ContextError e))
      | (Failed e, st) \<Rightarrow> Return (g_outText st) (Some e)
      | (Panicked, st) \<Rightarrow> Panic)"

text \<open>
  The state at the head of the loop after \<open>k\<close> completed iterations, when there is
  one: the step boundaries of the streaming loop.
\<close>

fun GenerateWithCallback_boundary ::
    "QwenONNX \<Rightarrow> ort \<Rightarrow> go_ctx \<Rightarrow> bool \<Rightarrow> int \<Rightarrow> gen_state \<Rightarrow> nat \<Rightarrow> gen_state option" where
  "GenerateWithCallback_boundary q rt ctx cb maxTokens st0 0 = Some st0"
| "GenerateWithCallback_boundary q rt ctx cb maxTokens st0 (Suc k) =
     (case GenerateWithCallback_boundary q rt ctx cb maxTokens st0 k of
        None \<Rightarrow> None
      | Some st \<Rightarrow>
          if g_t st < maxTokens then
            (case GenerateWithCallback_body q rt ctx cb st of
               Inl left \<Rightarrow> None
             | Inr st' \<Rightarrow> Some st')
          else None)"

subsection \<open>An example tokenizer and example sessions\<close>

text \<open>
  The tokenizer that \<open>loadBPETokenizer\<close> builds from a vocabulary of three words and
  one added token, and sessions that accept every tensor and return, for an input of
  \<open>n\<close> ids, logits of shape \<open>(1, n, 4)\<close> in which every row is the same.
\<close>

definition demo_tok :: bpeTokenizer where
  "demo_tok = loadBPETokenizer ascii [(''the'', 0), (''cat'', 1), (''sat'', 2)]
                [(3, ''<|endoftext|>'')]"

definition const_ort :: "float32 list \<Rightarrow> ort" where
  "const_ort row =
     \<lparr>NewTensor = (\<lambda>shape data. None),
      Run = (\<lambda>ids msk pos.
               Inr (Float32Tensor [1, int (length ids), int (length row)]
                      (concat (replicate (length ids) row))))\<rparr>"

definition never_done :: go_ctx where
  "never_done = (\<lambda>t. None)"

subsection \<open>Facts about the two loops\<close>

text \<open>
  The budget a call runs with, and the sequence the loops start from: the encoded
  prompt, of which only the last \<open>maxLen\<close> ids are kept.
\<close>

definition budget :: "int \<Rightarrow> int" where
  "budget maxTokens = (if maxTokens \<le> 0 then 64 else maxTokens)"

definition prompt_ids :: "golib \<Rightarrow> QwenONNX \<Rightarrow> string \<Rightarrow> int list" where
  "prompt_ids L q prompt =
     (let ids = Encode L (tok q) prompt
      in if length ids > qMaxLen q then drop (length ids - qMaxLen q) ids else ids)"

lemma Generate_run_eq:
  "Generate_run L q rt ctx prompt maxTokens
     = Generate_loop q rt (budget maxTokens) (gen_init (prompt_ids L q prompt))"
  by (simp add: Generate_run_def budget_def prompt_ids_def Let_def)

lemma GenerateWithCallback_run_eq:
  "GenerateWithCallback_run L q rt ctx cb prompt maxTokens
     = GenerateWithCallback_loop q rt ctx cb (budget maxTokens) (gen_init (prompt_ids L q prompt))"
  by (simp add: GenerateWithCallback_run_def budget_def prompt_ids_def Let_def)

lemma budget_pos: "0 < budget maxTokens"
  by (simp add: budget_def)

lemma prompt_ids_length: "length (prompt_ids L q prompt) \<le> qMaxLen q"
  by (simp add: prompt_ids_def Let_def)

lemma forward_runs:
  assumes "\<forall>shape d. NewTensor rt shape d = None" and "forward rt st = (r, st')"
  shows "g_runs st' = g_runs st @ [(g_ids st, map (\<lambda>i. 1) [0..<length (g_ids st)],
                                     map int [0..<length (g_ids st)])]"
  using assms
  by (auto simp: forward_def Let_def split: sum.splits ort_value.splits if_splits option.splits)

lemma Generate_body_frame:
  assumes "Generate_body q rt st = Inl (s, st') \<or> Generate_body q rt st = Inr st'"
  shows "prefix (g_runs st) (g_runs st')"
    and "(\<forall>shape d. NewTensor rt shape d = None) \<Longrightarrow>
           g_runs st' = g_runs st @ [(g_ids st, map (\<lambda>i. 1) [0..<length (g_ids st)],
                                       map int [0..<length (g_ids st)])]"
    and "length (g_ids st) \<le> qMaxLen q \<Longrightarrow> length (g_ids st') \<le> qMaxLen q"
    and "Generate_body q rt st = Inl (s, st') \<Longrightarrow> s \<noteq> BudgetExhausted \<and> s \<noteq> Cancelled e"
proof -
  obtain r st1 where f: "forward rt st = (r, st1)" by (cases "forward rt st")
  note fr = forward_frame [OF f]
  from assms f have runs: "g_runs st' = g_runs st1"
    by (auto simp: Generate_body_def Let_def split: forward_result.splits if_splits)
  from fr runs show "prefix (g_runs st) (g_runs st')" by auto
  {
    assume "Generate_body q rt st = Inl (s, st')"
    with f show "s \<noteq> BudgetExhausted \<and> s \<noteq> Cancelled e"
      by (auto simp: Generate_body_def Let_def split: forward_result.splits if_splits)
  }
  {
    assume "\<forall>shape d. NewTensor rt shape d = None"
    from forward_runs [OF this f] runs
    show "g_runs st' = g_runs st @ [(g_ids st, map (\<lambda>i. 1) [0..<length (g_ids st)],
                                       map int [0..<length (g_ids st)])]"
      by simp
  }
  {
    assume "length (g_ids st) \<le> qMaxLen q"
    with assms f fr show "length (g_ids st') \<le> qMaxLen q"
      by (auto simp: Generate_body_def Let_def split: forward_result.splits if_splits)
  }
qed

lemma Generate_loop_frame:
  "Generate_loop q rt n st = (s, st') \<Longrightarrow>
     prefix (g_runs st) (g_runs st')
     \<and> (length (g_ids st) \<le> qMaxLen q \<longrightarrow> length (g_ids st') \<le> qMaxLen q)
     \<and> (\<forall>e. s \<noteq> Cancelled e)"
proof (induction q rt n st rule: Generate_loop.induct)
  case (1 q rt n st)
  show ?case
  proof (cases "g_t st < n")
    case False
    with "1.prems" show ?thesis by (simp add: Generate_loop.simps [of q rt n st])
  next
    case True
    show ?thesis
    proof (cases "Generate_body q rt st")
      case (Inl left)
      with True "1.prems" have b: "Generate_body q rt st = Inl (s, st')"
        by (simp add: Generate_loop.simps [of q rt n st])
      then have b': "Generate_body q rt st = Inl (s, st') \<or> Generate_body q rt st = Inr st'" by simp
      from Generate_body_frame(1) [OF b'] Generate_body_frame(3) [OF b']
        Generate_body_frame(4) [OF b' b]
      show ?thesis by blast
    next
      case (Inr st1)
      with True "1.prems" have l: "Generate_loop q rt n st1 = (s, st')"
        by (simp add: Generate_loop.simps [of q rt n st])
      note IH = "1.IH" [OF True Inr l]
      from Inr have b': "Generate_body q rt st = Inl (s, st1) \<or> Generate_body q rt st = Inr st1" by simp
      from Generate_body_frame(1) [OF b'] IH have "prefix (g_runs st) (g_runs st')"
        using prefix_order.trans by blast
      moreover from Generate_body_frame(3) [OF b'] IH
      have "length (g_ids st) \<le> qMaxLen q \<longrightarrow> length (g_ids st') \<le> qMaxLen q" by blast
      ultimately show ?thesis using IH by blast
    qed
  qed
qed

lemma Generate_loop_first_run:
  assumes "\<forall>shape d. NewTensor rt shape d = None" and "g_t st < n" and "g_runs st = []"
    and "Generate_loop q rt n st = (s, st')"
  shows "\<exists>rest. g_runs st' = (g_ids st, map (\<lambda>i. 1) [0..<length (g_ids st)],
                               map int [0..<length (g_ids st)]) # rest"
proof -
  let ?x = "(g_ids st, map (\<lambda>i. 1 :: int) [0..<length (g_ids st)], map int [0..<length (g_ids st)])"
  have "prefix [?x] (g_runs st')"
  proof (cases "Generate_body q rt st")
    case (Inl left)
    with assms have b: "Generate_body q rt st = Inl (s, st')"
      by (simp add: Generate_loop.simps [of q rt n st])
    then have "Generate_body q rt st = Inl (s, st') \<or> Generate_body q rt st = Inr st'" by simp
    from Generate_body_frame(2) [OF this assms(1)] assms(3) show ?thesis by simp
  next
    case (Inr st1)
    with assms have l: "Generate_loop q rt n st1 = (s, st')"
      by (simp add: Generate_loop.simps [of q rt n st])
    from Inr have "Generate_body q rt st = Inl (s, st1) \<or> Generate_body q rt st = Inr st1" by simp
    from Generate_body_frame(2) [OF this assms(1)] assms(3) have "g_runs st1 = [?x]" by simp
    with Generate_loop_frame [OF l] show ?thesis by simp
  qed
  then show ?thesis by (auto simp: prefix_def)
qed

lemma GenerateWithCallback_body_Inr:
  assumes "GenerateWithCallback_body q rt ctx cb st = Inr st'"
  shows "g_t st' = g_t st + 1" and "g_outText st' = Decode (tok q) (g_ids st')"
    and "ctx (nat (g_t st)) = None"
    and "\<exists>x. g_ids st' = g_ids st @ [x] \<and> \<not> IsEOS (tok q) x"
proof -
  obtain r st1 where f: "forward rt st = (r, st1)" by (cases "forward rt st")
  note fr = forward_frame [OF f]
  from assms show "ctx (nat (g_t st)) = None"
    by (auto simp: GenerateWithCallback_body_def split: option.splits)
  with assms f fr show "g_t st' = g_t st + 1" "g_outText st' = Decode (tok q) (g_ids st')"
    "\<exists>x. g_ids st' = g_ids st @ [x] \<and> \<not> IsEOS (tok q) x"
    by (auto simp: GenerateWithCallback_body_def Let_def split: forward_result.splits if_splits)
qed

lemma GenerateWithCallback_body_Inl:
  assumes "GenerateWithCallback_body q rt ctx cb st = Inl (s, st')"
  shows "s \<noteq> BudgetExhausted"
    and "s = Cancelled e \<Longrightarrow> st' = st \<and> ctx (nat (g_t st)) = Some e"
    and "s = EndOfSequence \<Longrightarrow>
           g_t st' = g_t st \<and> g_outText st' = g_outText st
           \<and> (\<exists>x. g_ids st' = g_ids st @ [x] \<and> IsEOS (tok q) x)"
proof -
  obtain r st1 where f: "forward rt st = (r, st1)" by (cases "forward rt st")
  note fr = forward_frame [OF f]
  from assms f show "s \<noteq> BudgetExhausted"
    by (auto simp: GenerateWithCallback_body_def Let_def
        split: option.splits forward_result.splits if_splits)
  {
    assume "s = Cancelled e"
    with assms f show "st' = st \<and> ctx (nat (g_t st)) = Some e"
      by (auto simp: GenerateWithCallback_body_def Let_def
          split: option.splits forward_result.splits if_splits)
  }
  {
    assume "s = EndOfSequence"
    with assms f fr show "g_t st' = g_t st \<and> g_outText st' = g_outText st
           \<and> (\<exists>x. g_ids st' = g_ids st @ [x] \<and> IsEOS (tok q) x)"
      by (auto simp: GenerateWithCallback_body_def Let_def
          split: option.splits forward_result.splits if_splits)
  }
qed

lemma GenerateWithCallback_loop_cancel:
  "g_t st < n \<Longrightarrow> ctx (nat (g_t st)) = Some e \<Longrightarrow>
     GenerateWithCallback_loop q rt ctx cb n st = (Cancelled e, st)"
  by (simp add: GenerateWithCallback_loop.simps [of q rt ctx cb n st] GenerateWithCallback_body_def)

lemma GenerateWithCallback_boundary_Suc:
  assumes "GenerateWithCallback_boundary q rt ctx cb n st0 (Suc k) = Some st"
  obtains st1 where "GenerateWithCallback_boundary q rt ctx cb n st0 k = Some st1"
    and "g_t st1 < n" and "GenerateWithCallback_body q rt ctx cb st1 = Inr st"
  using assms by (auto split: option.splits if_splits sum.splits)

lemma GenerateWithCallback_boundary_loop:
  "GenerateWithCallback_boundary q rt ctx cb n st0 k = Some st \<Longrightarrow>
     GenerateWithCallback_loop q rt ctx cb n st0 = GenerateWithCallback_loop q rt ctx cb n st"
proof (induction k arbitrary: st)
  case 0
  then show ?case by simp
next
  case (Suc k)
  from Suc.prems obtain st1 where b: "GenerateWithCallback_boundary q rt ctx cb n st0 k = Some st1"
    and t: "g_t st1 < n" and s: "GenerateWithCallback_body q rt ctx cb st1 = Inr st"
    by (rule GenerateWithCallback_boundary_Suc)
  from t s have "GenerateWithCallback_loop q rt ctx cb n st1 = GenerateWithCallback_loop q rt ctx cb n st"
    by (simp add: GenerateWithCallback_loop.simps [of q rt ctx cb n st1])
  with Suc.IH [OF b] show ?case by simp
qed

lemma GenerateWithCallback_boundary_text:
  "GenerateWithCallback_boundary q rt ctx cb n (gen_init ids) k = Some st \<Longrightarrow>
     g_t st = int k \<and> g_outText st = (if k = 0 then [] else Decode (tok q) (g_ids st))"
proof (induction k arbitrary: st)
  case 0
  then show ?case by (auto simp: gen_init_def)
next
  case (Suc k)
  from Suc.prems obtain st1 where b: "GenerateWithCallback_boundary q rt ctx cb n (gen_init ids) k = Some st1"
    and s: "GenerateWithCallback_body q rt ctx cb st1 = Inr st"
    by (rule GenerateWithCallback_boundary_Suc)
  from Suc.IH [OF b] GenerateWithCallback_body_Inr(1,2) [OF s] show ?case by simp
qed

lemma GenerateWithCallback_loop_text:
  "GenerateWithCallback_loop q rt ctx cb n st = (s, st') \<Longrightarrow> 0 < n \<Longrightarrow> 0 \<le> g_t st \<Longrightarrow>
   g_outText st = (if g_t st = 0 then [] else Decode (tok q) (g_ids st)) \<Longrightarrow>
     (case s of
        BudgetExhausted \<Rightarrow> g_outText st' = Decode (tok q) (g_ids st')
      | EndOfSequence \<Rightarrow>
          g_ids st' \<noteq> [] \<and> IsEOS (tok q) (last (g_ids st'))
          \<and> g_outText st' = (if g_t st' = 0 then [] else Decode (tok q) (butlast (g_ids st')))
      | Cancelled e \<Rightarrow> g_outText st' = (if g_t st' = 0 then [] else Decode (tok q) (g_ids st'))
      | Failed e \<Rightarrow> True
      | Panicked \<Rightarrow> True)"
proof (induction q rt ctx cb n st rule: GenerateWithCallback_loop.induct)
  case (1 q rt ctx cb n st)
  show ?case
  proof (cases "g_t st < n")
    case False
    with "1.prems" show ?thesis
      by (auto simp: GenerateWithCallback_loop.simps [of q rt ctx cb n st])
  next
    case True
    show ?thesis
    proof (cases "GenerateWithCallback_body q rt ctx cb st")
      case (Inl left)
      with True "1.prems"(1) have b: "GenerateWithCallback_body q rt ctx cb st = Inl (s, st')"
        by (simp add: GenerateWithCallback_loop.simps [of q rt ctx cb n st])
      show ?thesis
      proof (cases s)
        case EndOfSequence
        with GenerateWithCallback_body_Inl(3) [OF b] "1.prems"(4) show ?thesis by auto
      next
        case BudgetExhausted
        with GenerateWithCallback_body_Inl(1) [OF b] show ?thesis by simp
      next
        case (Cancelled e)
        with GenerateWithCallback_body_Inl(2) [OF b] "1.prems"(4) show ?thesis by simp
      qed simp_all
    next
      case (Inr st1)
      with True "1.prems"(1) have l: "GenerateWithCallback_loop q rt ctx cb n st1 = (s, st')"
        by (simp add: GenerateWithCallback_loop.simps [of q rt ctx cb n st])
      from GenerateWithCallback_body_Inr(1,2) [OF Inr] "1.prems"(3)
      have "0 \<le> g_t st1" "g_outText st1 = (if g_t st1 = 0 then [] else Decode (tok q) (g_ids st1))"
        by simp_all
      with "1.IH" [OF True Inr l "1.prems"(2)] show ?thesis by simp
    qed
  qed
qed

lemma GenerateWithCallback_run_text:
  "(case GenerateWithCallback_run L q rt ctx cb prompt maxTokens of
      (BudgetExhausted, st) \<Rightarrow> g_outText st = Decode (tok q) (g_ids st)
    | (EndOfSequence, st) \<Rightarrow>
        g_ids st \<noteq> [] \<and> IsEOS (tok q) (last (g_ids st))
        \<and> g_outText st = (if g_t st = 0 then [] else Decode (tok q) (butlast (g_ids st)))
    | (Cancelled e, st) \<Rightarrow>
        g_outText st = (if g_t st = 0 then [] else Decode (tok q) (g_ids st))
    | (Failed e, st) \<Rightarrow> True
    | (Panicked, st) \<Rightarrow> True)"
proof -
  obtain s st where l: "GenerateWithCallback_loop q rt ctx cb (budget maxTokens)
                  (gen_init (prompt_ids L q prompt)) = (s, st)"
    by (cases "GenerateWithCallback_loop q rt ctx cb (budget maxTokens)
                  (gen_init (prompt_ids L q prompt))")
  have "0 \<le> g_t (gen_init (prompt_ids L q prompt))"
    "g_outText (gen_init (prompt_ids L q prompt))
       = (if g_t (gen_init (prompt_ids L q prompt)) = 0 then []
          else Decode (tok q) (g_ids (gen_init (prompt_ids L q prompt))))"
    by (simp_all add: gen_init_def)
  from GenerateWithCallback_loop_text [OF l budget_pos this] l
  show ?thesis by (simp add: GenerateWithCallback_run_eq)
qed

text \<open>
  Before the first completed step \<open>outText\<close> is still empty: when the first step
  selects the end-of-sequence id, or finds the context done, \<open>GenerateWithCallback\<close>
  returns the empty string, whatever the prompt decodes to.
\<close>

lemma GenerateWithCallback_text_before_first_step:
  "(case GenerateWithCallback_run L q rt ctx cb prompt maxTokens of
      (EndOfSequence, st) \<Rightarrow>
        g_t st = 0 \<longrightarrow> GenerateWithCallback L q rt ctx cb prompt maxTokens = Return [] None
    | (Cancelled e, st) \<Rightarrow>
        g_t st = 0 \<longrightarrow> GenerateWithCallback L q rt ctx cb prompt maxTokens
                         = Return [] (Some (ContextError e))
    | (BudgetExhausted, st) \<Rightarrow> True
    | (Failed e, st) \<Rightarrow> True
    | (Panicked, st) \<Rightarrow> True)"
  using GenerateWithCallback_run_text
    [where L = L and q = q and rt = rt and ctx = ctx and cb = cb and prompt = prompt
       and maxTokens = maxTokens]
  by (auto simp: GenerateWithCallback_def split: prod.splits stop.splits)

text \<open>
  The window invariant of \<open>Generate\<close>: the sequence it starts from and the sequence
  after every exit of its loop hold at most \<open>maxLen\<close> ids.
\<close>

lemma Generate_keeps_window:
  "length (g_ids (snd (Generate_run L q rt ctx prompt maxTokens))) \<le> qMaxLen q"
proof -
  obtain s st where l: "Generate_loop q rt (budget maxTokens) (gen_init (prompt_ids L q prompt)) = (s, st)"
    by (cases "Generate_loop q rt (budget maxTokens) (gen_init (prompt_ids L q prompt))")
  have "length (g_ids (gen_init (prompt_ids L q prompt))) \<le> qMaxLen q"
    by (simp add: gen_init_def prompt_ids_length)
  with Generate_loop_frame [OF l] l show ?thesis by (simp add: Generate_run_eq)
qed

subsection \<open>The example sessions, step by step\<close>

lemma drop_concat_replicate:
  "drop (length row * m) (concat (replicate (m + j) row)) = concat (replicate j row)"
  by (induction m) simp_all

lemma const_ort_go_slice:
  assumes "n = m + 1"
  shows "go_slice (concat (replicate n row)) (int (length row) * (int n - 1))
           (int (length row) * (int n - 1) + int (length row)) = Some row"
proof -
  define k where "k = length row"
  define xs where "xs = concat (replicate n row)"
  have len: "length xs = k * n"
    unfolding xs_def k_def by (induction n) simp_all
  have "drop (k * m) xs = concat (replicate 1 row)"
    unfolding k_def xs_def assms by (rule drop_concat_replicate)
  then have row: "take k (drop (k * m) xs) = row" by (simp add: k_def)
  have lo: "int k * (int n - 1) = int (k * m)" using assms by simp
  have hi: "int (k * m) + int k = int (k * n)" using assms by (simp add: algebra_simps)
  have d: "nat (int (k * n) - int (k * m)) = k" using assms by (simp add: algebra_simps)
  have le: "k * m \<le> k * n" using assms by simp
  have "go_slice xs (int (k * m)) (int (k * n)) = Some row"
    using le by (simp add: go_slice_def len d row del: of_nat_mult)
  then show ?thesis
    unfolding xs_def [symmetric] k_def [symmetric] lo hi .
qed

lemma const_ort_forward:
  assumes "g_ids st \<noteq> []"
  shows "forward (const_ort row) st
     = (NextID (argmax row),
        st\<lparr>g_runs := g_runs st @ [(g_ids st, map (\<lambda>i. 1) [0..<length (g_ids st)],
                                     map int [0..<length (g_ids st)])]\<rparr>)"
proof -
  from assms obtain m where m: "length (g_ids st) = m + 1" by (cases "g_ids st") auto
  note s = const_ort_go_slice [OF m, of row]
  show ?thesis
    by (simp add: forward_def const_ort_def Let_def s del: of_nat_Suc of_nat_add)
qed

lemma const_ort_GenerateWithCallback_body:
  assumes "g_ids st \<noteq> []" and "\<not> IsEOS (tok q) (argmax row)" and "ctx (nat (g_t st)) = None"
  shows "\<exists>st'. GenerateWithCallback_body q (const_ort row) ctx cb st = Inr st'
           \<and> g_ids st' = g_ids st @ [argmax row]"
  using assms by (simp add: GenerateWithCallback_body_def const_ort_forward Let_def)

lemma const_ort_Generate_body:
  assumes "g_ids st \<noteq> []" and "\<not> IsEOS (tok q) (argmax row)"
  shows "\<exists>st'. Generate_body q (const_ort row) st = Inr st'
           \<and> g_ids st' \<noteq> [] \<and> length (g_runs st') = length (g_runs st) + 1"
proof -
  from assms(1) obtain x xs where "g_ids st = x # xs" by (cases "g_ids st") auto
  with assms(2) show ?thesis
    by (simp add: Generate_body_def const_ort_forward Let_def)
qed

lemma const_ort_Generate_loop:
  "Generate_loop q (const_ort row) n st = (s, st') \<Longrightarrow> g_ids st \<noteq> [] \<Longrightarrow>
   \<not> IsEOS (tok q) (argmax row) \<Longrightarrow> g_t st \<le> n \<Longrightarrow>
     s = BudgetExhausted \<and> g_t st' = n
     \<and> int (length (g_runs st')) = int (length (g_runs st)) + (n - g_t st)"
proof (induction q "const_ort row" n st rule: Generate_loop.induct)
  case (1 q n st)
  show ?case
  proof (cases "g_t st < n")
    case False
    with "1.prems" show ?thesis by (simp add: Generate_loop.simps [of q _ n st])
  next
    case True
    from const_ort_Generate_body [OF "1.prems"(2,3)] obtain st1 where
      b: "Generate_body q (const_ort row) st = Inr st1" and i: "g_ids st1 \<noteq> []"
      and r: "length (g_runs st1) = length (g_runs st) + 1"
      by blast
    from True b "1.prems"(1) have l: "Generate_loop q (const_ort row) n st1 = (s, st')"
      by (simp add: Generate_loop.simps [of q _ n st])
    from Generate_body_t [OF b] True have t: "g_t st1 = g_t st + 1" "g_t st1 \<le> n" by simp_all
    from "1.hyps" [OF True b l i "1.prems"(3) t(2)] r t show ?thesis by simp
  qed
qed

lemma ascii_fields_words:
  "ascii_fields_from [] (concat (replicate n ''a '')) = replicate n ''a''"
  by (induction n) (simp_all add: ascii_is_space_def)

subsection \<open>Claims about the generation loops\<close>

text \<open>
  C1. A call of \<open>Generate\<close> with \<open>maxTokens \<le> 0\<close> runs with the default budget of 64
  steps: it behaves in every respect as the call with \<open>maxTokens = 64\<close>. Its first
  step is always started; when the tensors can be created, the session is invoked,
  first on the encoded prompt with a mask of ones and the positions \<open>0..n-1\<close>.
\<close>

theorem Generate_nonpositive_budget_is_default:
  assumes "maxTokens \<le> 0"
  shows "Generate_run L q rt ctx prompt maxTokens = Generate_run L q rt ctx prompt 64
    \<and> Generate L q rt ctx prompt maxTokens = Generate L q rt ctx prompt 64
    \<and> ((\<forall>shape d. NewTensor rt shape d = None) \<longrightarrow>
         (\<exists>rest. g_runs (snd (Generate_run L q rt ctx prompt maxTokens))
                   = (prompt_ids L q prompt,
                      map (\<lambda>i. 1) [0..<length (prompt_ids L q prompt)],
                      map int [0..<length (prompt_ids L q prompt)]) # rest))"
proof -
  from assms have r: "Generate_run L q rt ctx prompt maxTokens = Generate_run L q rt ctx prompt 64"
    by (simp add: Generate_run_def)
  then have g: "Generate L q rt ctx prompt maxTokens = Generate L q rt ctx prompt 64"
    by (simp add: Generate_def)
  have "\<exists>rest. g_runs (snd (Generate_run L q rt ctx prompt maxTokens))
                   = (prompt_ids L q prompt,
                      map (\<lambda>i. 1) [0..<length (prompt_ids L q prompt)],
                      map int [0..<length (prompt_ids L q prompt)]) # rest"
    if ok: "\<forall>shape d. NewTensor rt shape d = None"
  proof -
    obtain s st' where l: "Generate_loop q rt (budget maxTokens) (gen_init (prompt_ids L q prompt)) = (s, st')"
      by (cases "Generate_loop q rt (budget maxTokens) (gen_init (prompt_ids L q prompt))")
    have "g_t (gen_init (prompt_ids L q prompt)) < budget maxTokens"
      "g_runs (gen_init (prompt_ids L q prompt)) = []"
      using budget_pos [of maxTokens] by (simp_all add: gen_init_def)
    from Generate_loop_first_run [OF ok this l] l show ?thesis
      by (simp add: Generate_run_eq gen_init_def)
  qed
  with r g show ?thesis by blast
qed

theorem Generate_nonpositive_budget_is_default_witness:
  "(0 :: int) \<le> 0
   \<and> Generate ascii (NewQwenONNX demo_tok) (const_ort [Finite 0, Finite 0, Finite 0, Finite 1])
        never_done ''the cat sat'' 0
      = Generate ascii (NewQwenONNX demo_tok) (const_ort [Finite 0, Finite 0, Finite 0, Finite 1])
        never_done ''the cat sat'' 64
   \<and> Generate ascii (NewQwenONNX demo_tok) (const_ort [Finite 0, Finite 0, Finite 0, Finite 1])
        never_done ''the cat sat'' 64 = Return ''the cat sat'' None
   \<and> (\<forall>shape d. NewTensor (const_ort [Finite 0, Finite 0, Finite 0, Finite 1]) shape d = None)
   \<and> (\<exists>rest. g_runs (snd (Generate_run ascii (NewQwenONNX demo_tok)
                  (const_ort [Finite 0, Finite 0, Finite 0, Finite 1]) never_done ''the cat sat'' 0))
               = ([0, 1, 2], [1, 1, 1], [0, 1, 2]) # rest)"
proof -
  let ?rt = "const_ort [Finite 0, Finite 0, Finite 0, Finite 1]"
  have g: "Generate ascii (NewQwenONNX demo_tok) ?rt never_done ''the cat sat'' 64
             = Return ''the cat sat'' None"
    by code_simp
  have n: "\<forall>shape d. NewTensor ?rt shape d = None"
    by (simp add: const_ort_def)
  have p: "prompt_ids ascii (NewQwenONNX demo_tok) ''the cat sat'' = [0, 1, 2]"
    by code_simp
  have m: "map (\<lambda>i. 1) [0..<length [0, 1, 2 :: int]] = [1, 1, 1 :: int]"
    "map int [0..<length [0, 1, 2 :: int]] = [0, 1, 2]"
    by code_simp+
  have le: "(0 :: int) \<le> 0" by simp
  note T = Generate_nonpositive_budget_is_default [OF le, of ascii "NewQwenONNX demo_tok" ?rt
      never_done "''the cat sat''"]
  from T have a: "Generate ascii (NewQwenONNX demo_tok) ?rt never_done ''the cat sat'' 0
             = Generate ascii (NewQwenONNX demo_tok) ?rt never_done ''the cat sat'' 64"
    by blast
  from T n have "\<exists>rest. g_runs (snd (Generate_run ascii (NewQwenONNX demo_tok) ?rt never_done
                  ''the cat sat'' 0))
               = (prompt_ids ascii (NewQwenONNX demo_tok) ''the cat sat'',
                  map (\<lambda>i. 1) [0..<length (prompt_ids ascii (NewQwenONNX demo_tok) ''the cat sat'')],
                  map int [0..<length (prompt_ids ascii (NewQwenONNX demo_tok) ''the cat sat'')])
                 # rest"
    by blast
  then have b: "\<exists>rest. g_runs (snd (Generate_run ascii (NewQwenONNX demo_tok) ?rt never_done
                  ''the cat sat'' 0))
               = ([0, 1, 2], [1, 1, 1], [0, 1, 2]) # rest"
    by (simp only: p m)
  from le a g n b show ?thesis by blast
qed

text \<open>
  \<open>Generate("the cat sat", 0)\<close> on the code: with a session that selects the
  end-of-sequence id at once it invokes the session and returns the prompt's text, not
  the empty string; with a session that never selects it, it runs 64 steps and invokes
  the session 64 times.
\<close>

theorem Generate_zero_budget_runs_64_steps:
  "Generate ascii (NewQwenONNX demo_tok) (const_ort [Finite 0, Finite 0, Finite 0, Finite 1])
     never_done ''the cat sat'' 0 = Return ''the cat sat'' None
   \<and> (case Generate_run ascii (NewQwenONNX demo_tok)
             (const_ort [Finite 0, Finite 1, Finite 0, Finite 0]) never_done ''the cat sat'' 0 of
        (s, st) \<Rightarrow> s = BudgetExhausted \<and> g_t st = 64 \<and> length (g_runs st) = 64)"
proof
  show "Generate ascii (NewQwenONNX demo_tok) (const_ort [Finite 0, Finite 0, Finite 0, Finite 1])
     never_done ''the cat sat'' 0 = Return ''the cat sat'' None"
    by code_simp
next
  let ?q = "NewQwenONNX demo_tok"
  let ?row = "[Finite 0, Finite 1, Finite 0, Finite 0]"
  let ?st0 = "gen_init (prompt_ids ascii ?q ''the cat sat'')"
  obtain s st where l: "Generate_loop ?q (const_ort ?row) (budget 0) ?st0 = (s, st)"
    by (cases "Generate_loop ?q (const_ort ?row) (budget 0) ?st0")
  have "prompt_ids ascii ?q ''the cat sat'' \<noteq> []"
    using Encode_nonempty [of ascii "tok ?q" "''the cat sat''"]
    by (auto simp: prompt_ids_def Let_def NewQwenONNX_def)
  then have ne: "g_ids ?st0 \<noteq> []" by (simp add: gen_init_def)
  have e: "\<not> IsEOS (tok ?q) (argmax ?row)" by code_simp
  have t: "g_t ?st0 \<le> budget 0" by (simp add: gen_init_def budget_def)
  from const_ort_Generate_loop [OF l ne e t]
  have "s = BudgetExhausted \<and> g_t st = 64 \<and> length (g_runs st) = 64"
    by (simp add: gen_init_def budget_def)
  with l show "case Generate_run ascii ?q (const_ort ?row) never_done ''the cat sat'' 0 of
        (s, st) \<Rightarrow> s = BudgetExhausted \<and> g_t st = 64 \<and> length (g_runs st) = 64"
    by (simp add: Generate_run_eq)
qed

text \<open>
  C2. When the context is found done at a step boundary of \<open>GenerateWithCallback\<close>
  (the state \<open>st\<close> after \<open>k\<close> completed iterations, with \<open>k\<close> below the budget), the
  loop is left in that step with the state unchanged, so without a call of the
  session or the callback, and the function returns the text decoded after the last
  completed step (the empty string when no step was completed) together with the
  error of the context.
\<close>

theorem GenerateWithCallback_cancelled_at_boundary:
  assumes "GenerateWithCallback_boundary q rt ctx cb (budget maxTokens)
             (gen_init (prompt_ids L q prompt)) k = Some st"
    and "int k < budget maxTokens"
    and "ctx k = Some e"
  shows "GenerateWithCallback_run L q rt ctx cb prompt maxTokens = (Cancelled e, st)
    \<and> GenerateWithCallback L q rt ctx cb prompt maxTokens
        = Return (if k = 0 then [] else Decode (tok q) (g_ids st)) (Some (ContextError e))"
proof -
  note t = GenerateWithCallback_boundary_text [OF assms(1)]
  from t assms(2,3) have "g_t st < budget maxTokens" "ctx (nat (g_t st)) = Some e" by simp_all
  then have "GenerateWithCallback_loop q rt ctx cb (budget maxTokens) st = (Cancelled e, st)"
    by (rule GenerateWithCallback_loop_cancel)
  with GenerateWithCallback_boundary_loop [OF assms(1)]
  have r: "GenerateWithCallback_run L q rt ctx cb prompt maxTokens = (Cancelled e, st)"
    by (simp add: GenerateWithCallback_run_eq)
  with t show ?thesis by (simp add: GenerateWithCallback_def)
qed

definition cancel_at :: "nat \<Rightarrow> go_ctx" where
  "cancel_at k = (\<lambda>t. if t = k then Some Canceled else None)"

theorem GenerateWithCallback_cancelled_at_boundary_witness:
  "(\<exists>st. GenerateWithCallback_boundary (NewQwenONNX demo_tok)
            (const_ort [Finite 0, Finite 1, Finite 0, Finite 0]) (cancel_at 2) True (budget 5)
            (gen_init (prompt_ids ascii (NewQwenONNX demo_tok) ''the cat sat'')) 2 = Some st
         \<and> g_ids st = [0, 1, 2, 1, 1]
         \<and> GenerateWithCallback_run ascii (NewQwenONNX demo_tok)
             (const_ort [Finite 0, Finite 1, Finite 0, Finite 0]) (cancel_at 2) True
             ''the cat sat'' 5 = (Cancelled Canceled, st))
   \<and> int 2 < budget 5
   \<and> cancel_at 2 2 = Some Canceled
   \<and> GenerateWithCallback ascii (NewQwenONNX demo_tok)
        (const_ort [Finite 0, Finite 1, Finite 0, Finite 0]) (cancel_at 2) True ''the cat sat'' 5
      = Return ''the cat sat cat cat'' (Some (ContextError Canceled))"
proof -
  let ?b = "GenerateWithCallback_boundary (NewQwenONNX demo_tok)
            (const_ort [Finite 0, Finite 1, Finite 0, Finite 0]) (cancel_at 2) True (budget 5)
            (gen_init (prompt_ids ascii (NewQwenONNX demo_tok) ''the cat sat'')) 2"
  have "case ?b of None \<Rightarrow> False | Some st \<Rightarrow> g_ids st = [0, 1, 2, 1, 1]"
    by code_simp
  then obtain st where b: "?b = Some st" and i: "g_ids st = [0, 1, 2, 1, 1]"
    by (auto split: option.splits)
  have k: "int 2 < budget 5" by (simp add: budget_def)
  have c: "cancel_at 2 2 = Some Canceled" by (simp add: cancel_at_def)
  have d: "Decode (tok (NewQwenONNX demo_tok)) [0, 1, 2, 1, 1] = ''the cat sat cat cat''"
    by code_simp
  from GenerateWithCallback_cancelled_at_boundary [OF b k c] b i k c d
  show ?thesis by simp
qed

text \<open>
  A context that is done before the first step makes \<open>GenerateWithCallback\<close> return
  the empty text with the context's error, not with a nil error; one that is done
  after two steps makes it return the text of those two steps, again with the error.
\<close>

theorem GenerateWithCallback_cancel_returns_error:
  "GenerateWithCallback ascii (NewQwenONNX demo_tok)
     (const_ort [Finite 0, Finite 1, Finite 0, Finite 0]) (cancel_at 2) True ''the cat sat'' 5
     = Return ''the cat sat cat cat'' (Some (ContextError Canceled))
   \<and> GenerateWithCallback ascii (NewQwenONNX demo_tok)
     (const_ort [Finite 0, Finite 1, Finite 0, Finite 0]) (cancel_at 0) True ''the cat sat'' 5
     = Return [] (Some (ContextError Canceled))"
  by code_simp

text \<open>
  What the two functions return, by the way their loop is left. \<open>Generate\<close> decodes
  the final sequence after its loop, and on the end-of-sequence id that sequence ends
  with the id (the window holds at least one id). \<open>GenerateWithCallback\<close> returns
  \<open>outText\<close>, which was decoded at the end of the last completed step.
\<close>

lemma Generate_body_EndOfSequence:
  assumes "Generate_body q rt st = Inl (EndOfSequence, st')" and "0 < qMaxLen q"
  shows "g_ids st' \<noteq> [] \<and> IsEOS (tok q) (last (g_ids st'))"
proof -
  obtain r st1 where f: "forward rt st = (r, st1)" by (cases "forward rt st")
  with assms(1) obtain x where x: "IsEOS (tok q) x"
    and i: "g_ids st' = (if length (g_ids st1 @ [x]) > qMaxLen q
                         then drop 1 (g_ids st1 @ [x]) else g_ids st1 @ [x])"
    by (auto simp: Generate_body_def Let_def split: forward_result.splits if_splits)
  show ?thesis
  proof (cases "g_ids st1")
    case Nil
    with i assms(2) x show ?thesis by simp
  next
    case (Cons y ys)
    with i x show ?thesis by simp
  qed
qed

lemma generation_returns_decoded_text:
  "(case Generate_run L q rt ctx prompt maxTokens of
      (EndOfSequence, st) \<Rightarrow>
        Generate L q rt ctx prompt maxTokens = Return (Decode (tok q) (g_ids st)) None
    | (BudgetExhausted, st) \<Rightarrow>
        Generate L q rt ctx prompt maxTokens = Return (Decode (tok q) (g_ids st)) None
    | (Cancelled e, st) \<Rightarrow> False
    | (Failed e, st) \<Rightarrow> True
    | (Panicked, st) \<Rightarrow> True)
   \<and> (case GenerateWithCallback_run L q rt ctx cb prompt maxTokens of
      (BudgetExhausted, st) \<Rightarrow>
        GenerateWithCallback L q rt ctx cb prompt maxTokens
          = Return (Decode (tok q) (g_ids st)) None
    | (EndOfSequence, st) \<Rightarrow>
        g_ids st \<noteq> [] \<and> IsEOS (tok q) (last (g_ids st))
        \<and> (0 < g_t st \<longrightarrow>
             GenerateWithCallback L q rt ctx cb prompt maxTokens
               = Return (Decode (tok q) (butlast (g_ids st))) None)
    | (Cancelled e, st) \<Rightarrow>
        (0 < g_t st \<longrightarrow>
           GenerateWithCallback L q rt ctx cb prompt maxTokens
             = Return (Decode (tok q) (g_ids st)) (Some (ContextError e)))
    | (Failed e, st) \<Rightarrow> True
    | (Panicked, st) \<Rightarrow> True)"
proof
  obtain s st where r: "Generate_run L q rt ctx prompt maxTokens = (s, st)"
    by (cases "Generate_run L q rt ctx prompt maxTokens")
  then have "Generate_loop q rt (budget maxTokens) (gen_init (prompt_ids L q prompt)) = (s, st)"
    by (simp add: Generate_run_eq)
  from Generate_loop_frame [OF this] have "\<forall>e. s \<noteq> Cancelled e" by simp
  with r show "case Generate_run L q rt ctx prompt maxTokens of
      (EndOfSequence, st) \<Rightarrow>
        Generate L q rt ctx prompt maxTokens = Return (Decode (tok q) (g_ids st)) None
    | (BudgetExhausted, st) \<Rightarrow>
        Generate L q rt ctx prompt maxTokens = Return (Decode (tok q) (g_ids st)) None
    | (Cancelled e, st) \<Rightarrow> False
    | (Failed e, st) \<Rightarrow> True
    | (Panicked, st) \<Rightarrow> True"
    by (cases s) (simp_all add: Generate_def)
next
  show "case GenerateWithCallback_run L q rt ctx cb prompt maxTokens of
      (BudgetExhausted, st) \<Rightarrow>
        GenerateWithCallback L q rt ctx cb prompt maxTokens
          = Return (Decode (tok q) (g_ids st)) None
    | (EndOfSequence, st) \<Rightarrow>
        g_ids st \<noteq> [] \<and> IsEOS (tok q) (last (g_ids st))
        \<and> (0 < g_t st \<longrightarrow>
             GenerateWithCallback L q rt ctx cb prompt maxTokens
               = Return (Decode (tok q) (butlast (g_ids st))) None)
    | (Cancelled e, st) \<Rightarrow>
        (0 < g_t st \<longrightarrow>
           GenerateWithCallback L q rt ctx cb prompt maxTokens
             = Return (Decode (tok q) (g_ids st)) (Some (ContextError e)))
    | (Failed e, st) \<Rightarrow> True
    | (Panicked, st) \<Rightarrow> True"
    using GenerateWithCallback_run_text
      [where L = L and q = q and rt = rt and ctx = ctx and cb = cb and prompt = prompt
         and maxTokens = maxTokens]
    by (auto simp: GenerateWithCallback_def split: prod.splits stop.splits)
qed

text \<open>
  C4 on the code. The prompt \<open>the cat sat\<close> and a session that selects the
  end-of-sequence id in the first step: the final sequence is the three prompt ids and
  the end-of-sequence id, and it decodes to \<open>the cat sat\<close>. \<open>Generate\<close> returns that
  text. \<open>GenerateWithCallback\<close> leaves its loop before \<open>outText\<close> is decoded and
  returns the empty string with a nil error.
\<close>

theorem GenerateWithCallback_eos_text_is_stale:
  "(case GenerateWithCallback_run ascii (NewQwenONNX demo_tok)
           (const_ort [Finite 0, Finite 0, Finite 0, Finite 1]) never_done True ''the cat sat'' 5 of
      (s, st) \<Rightarrow> s = EndOfSequence \<and> g_ids st = [0, 1, 2, 3]
                 \<and> Decode (tok (NewQwenONNX demo_tok)) (g_ids st) = ''the cat sat'')
   \<and> GenerateWithCallback ascii (NewQwenONNX demo_tok)
        (const_ort [Finite 0, Finite 0, Finite 0, Finite 1]) never_done True ''the cat sat'' 5
      = Return [] None
   \<and> Generate ascii (NewQwenONNX demo_tok)
        (const_ort [Finite 0, Finite 0, Finite 0, Finite 1]) never_done ''the cat sat'' 5
      = Return ''the cat sat'' None"
  by code_simp

text \<open>A prompt of 512 words.\<close>

definition prompt_512 :: string where
  "prompt_512 = concat (replicate 512 ''a '')"

text \<open>
  C3 on the code. A prompt of 512 words fills the window of \<open>maxLen = 512\<close> ids. After
  every step \<open>Generate\<close> holds at most 512 ids. \<open>GenerateWithCallback\<close> drops nothing:
  at the step boundary after its first step the sequence holds 513 ids, and that
  sequence is the input of the next call of the session.
\<close>

theorem GenerateWithCallback_exceeds_window:
  "qMaxLen (NewQwenONNX demo_tok) = 512
   \<and> length (prompt_ids ascii (NewQwenONNX demo_tok) prompt_512) = 512
   \<and> length (g_ids (snd (Generate_run ascii (NewQwenONNX demo_tok)
              (const_ort [Finite 0, Finite 1, Finite 0, Finite 0]) never_done prompt_512 2)))
       \<le> 512
   \<and> (case GenerateWithCallback_boundary (NewQwenONNX demo_tok)
             (const_ort [Finite 0, Finite 1, Finite 0, Finite 0]) never_done False (budget 2)
             (gen_init (prompt_ids ascii (NewQwenONNX demo_tok) prompt_512)) 1 of
        None \<Rightarrow> False
      | Some st \<Rightarrow> length (g_ids st) = 513)"
proof -
  let ?q = "NewQwenONNX demo_tok"
  let ?row = "[Finite 0, Finite 1, Finite 0, Finite 0]"
  let ?st0 = "gen_init (prompt_ids ascii ?q prompt_512)"
  have m: "qMaxLen ?q = 512" by (simp add: NewQwenONNX_def)
  have "Fields ascii prompt_512 = replicate 512 ''a''"
    by (simp add: ascii_def prompt_512_def ascii_fields_words)
  then have "length (Encode ascii (tok ?q) prompt_512) = 512"
    using Encode_length [of ascii prompt_512 "tok ?q"] by simp
  then have p: "length (prompt_ids ascii ?q prompt_512) = 512"
    by (simp add: prompt_ids_def Let_def m)
  have g: "length (g_ids (snd (Generate_run ascii ?q (const_ort ?row) never_done prompt_512 2))) \<le> 512"
    using Generate_keeps_window [of ascii ?q "const_ort ?row" never_done prompt_512 2] m by simp
  have e: "\<not> IsEOS (tok ?q) (argmax ?row)" by code_simp
  from p have ne: "g_ids ?st0 \<noteq> []" by (auto simp: gen_init_def)
  have c: "never_done (nat (g_t ?st0)) = None" by (simp add: never_done_def)
  from const_ort_GenerateWithCallback_body [where cb = False and ctx = never_done, OF ne e c]
  obtain st1 where
    b: "GenerateWithCallback_body ?q (const_ort ?row) never_done False ?st0 = Inr st1"
    and i: "g_ids st1 = g_ids ?st0 @ [argmax ?row]"
    by blast
  have "g_t ?st0 < budget 2" by (simp add: gen_init_def budget_def)
  with b have "GenerateWithCallback_boundary ?q (const_ort ?row) never_done False (budget 2) ?st0 1
                 = Some st1"
    by simp
  moreover from i p have "length (g_ids st1) = 513" by (simp add: gen_init_def)
  ultimately show ?thesis using m p g by simp
qed

section \<open>The hash embedder\<close>

text \<open>
  \<open>hashEmbedder.hash\<close>: 32-bit FNV-1a over the bytes of the string, with wrap-around
  multiplication.
\<close>

unbundle bit_operations_syntax

definition hash :: "string \<Rightarrow> 32 word" where
  "hash s = fold (\<lambda>c h. (h XOR word_of_nat (of_char c)) * 16777619) s 2166136261"

text \<open>
  The floating-point operations that \<open>embedOne\<close> uses are parameters: addition and
  multiplication of \<open>float32\<close>, and for \<open>float64\<close> (the type \<open>'d\<close>) the conversion from
  \<open>float32\<close>, addition, zero, \<open>math.Sqrt\<close>, the test \<open>> 0\<close>, the quotient \<open>1.0 / x\<close> and
  the conversion back to \<open>float32\<close>. Each is a function of its operands.
\<close>

record 'd fpu =
  f32_add :: "float32 \<Rightarrow> float32 \<Rightarrow> float32"
  f32_mul :: "float32 \<Rightarrow> float32 \<Rightarrow> float32"
  f64_of_f32 :: "float32 \<Rightarrow> 'd"
  f64_zero :: "'d"
  f64_add :: "'d \<Rightarrow> 'd \<Rightarrow> 'd"
  f64_sqrt :: "'d \<Rightarrow> 'd"
  f64_gt_zero :: "'d \<Rightarrow> bool"
  f64_inv :: "'d \<Rightarrow> 'd"
  f32_of_f64 :: "'d \<Rightarrow> float32"

record Config =
  ModelName :: string
  ModelDir :: string
  Backend :: string
  WorkDir :: string

record hashEmbedder =
  modelName :: string
  dim :: nat

definition New :: "Config \<Rightarrow> hashEmbedder" where
  "New cfg =
     \<lparr>modelName = (if ModelName cfg = [] then ''hash-embeddings-384'' else ModelName cfg),
      dim = 384\<rparr>"

text \<open>
  \<open>embedOne\<close>. The bucket index is \<open>h.hash(tok) % uint32(h.dim)\<close>; the remainder by zero
  panics (\<open>None\<close>), which \<open>dim = 384\<close> excludes. The index is below \<open>uint32(h.dim)\<close> and
  so within \<open>vec\<close>.
\<close>

definition embedOne :: "'d fpu \<Rightarrow> golib \<Rightarrow> hashEmbedder \<Rightarrow> string \<Rightarrow> float32 list option" where
  "embedOne F L h text' =
     (let vec0 = replicate (dim h) (Finite 0);
          tokens = FindAllWords L (ToLower L text')
      in if length tokens = 0 then Some vec0
         else if (word_of_nat (dim h) :: 32 word) = 0 then None
         else
           (let vec1 = fold (\<lambda>tok vec.
                               (let idx = unat (hash tok mod word_of_nat (dim h));
                                    sign = (if hash (tok @ ''_alt'') AND 1 = 1
                                            then Finite (- 1) else Finite 1)
                                in vec[idx := f32_add F (vec ! idx) sign]))
                            tokens vec0;
                norm0 = fold (\<lambda>v norm. f64_add F norm (f64_of_f32 F (f32_mul F v v)))
                             vec1 (f64_zero F);
                norm = f64_sqrt F norm0
            in if f64_gt_zero F norm
               then (let inv = f32_of_f64 F (f64_inv F norm)
                     in Some (map (\<lambda>v. f32_mul F v inv) vec1))
               else Some vec1))"

text \<open>
  \<open>hashEmbedder.Embed\<close>: \<open>out\<close> is made with one (nil) entry per input and filled by
  index; the result is \<open>(out, h.modelName, nil)\<close>, or a panic of \<open>embedOne\<close> (\<open>None\<close>).
\<close>

definition Embed ::
    "'d fpu \<Rightarrow> golib \<Rightarrow> hashEmbedder \<Rightarrow> string list
       \<Rightarrow> (float32 list list \<times> string \<times> go_error option) option" where
  "Embed F L h inputs =
     (case fold (\<lambda>(i, s) out.
                   case out of
                     None \<Rightarrow> None
                   | Some vs \<Rightarrow> (case embedOne F L h s of
                                   None \<Rightarrow> None
                                 | Some v \<Rightarrow> Some (vs[i := v])))
                (enumerate 0 inputs) (Some (replicate (length inputs) [])) of
        None \<Rightarrow> None
      | Some out \<Rightarrow> Some (out, modelName h, None))"

lemma Embed_fold_None:
  "fold (\<lambda>(i, s) out.
           case out of
             None \<Rightarrow> None
           | Some vs \<Rightarrow> (case f s of None \<Rightarrow> None | Some v \<Rightarrow> Some (vs[i := v])))
        xs None = None"
  by (induction xs) (auto split: prod.splits)

lemma Embed_fold_Some:
  "k + length inputs \<le> length vs \<Longrightarrow>
   fold (\<lambda>(i, s) out.
           case out of
             None \<Rightarrow> None
           | Some vs \<Rightarrow> (case f s of None \<Rightarrow> None | Some v \<Rightarrow> Some (vs[i := v])))
        (enumerate k inputs) (Some vs)
     = (if list_all (\<lambda>s. f s \<noteq> None) inputs
        then Some (take k vs @ map (\<lambda>s. the (f s)) inputs @ drop (k + length inputs) vs)
        else None)"
proof (induction inputs arbitrary: k vs)
  case Nil
  then show ?case by simp
next
  case (Cons s inputs)
  show ?case
  proof (cases "f s")
    case None
    then show ?thesis by (simp add: Embed_fold_None)
  next
    case (Some v)
    from Cons.prems have k: "k < length vs" by simp
    from Cons.prems have "Suc k + length inputs \<le> length (vs[k := v])" by simp
    note IH = Cons.IH [OF this]
    have t: "take (Suc k) (vs[k := v]) = take k vs @ [v]"
      using k by (simp add: take_Suc_conv_app_nth)
    show ?thesis
      using Some by (simp add: IH t)
  qed
qed

lemma Embed_eq:
  "Embed F L h inputs =
     (if list_all (\<lambda>s. embedOne F L h s \<noteq> None) inputs
      then Some (map (\<lambda>s. the (embedOne F L h s)) inputs, modelName h, None)
      else None)"
  using Embed_fold_Some [of 0 inputs "replicate (length inputs) []" "embedOne F L h"]
  by (simp add: Embed_def)

lemma embedOne_New: "embedOne F L (New cfg) s \<noteq> None"
  by (simp add: embedOne_def New_def Let_def)

text \<open>
  C8. \<open>Embed\<close> of the hash embedder is a function of its receiver's fields and its
  input list only, so two calls on equal lists return the same vectors; within one
  call the vector at a position depends on the text at that position only, so equal
  texts get equal vectors; in particular \<open>Embed(["x", "x"])\<close> on the embedder that \<open>New\<close>
  builds returns two identical vectors.
\<close>

theorem Embed_deterministic:
  "(inputs = inputs' \<longrightarrow> Embed F L h inputs = Embed F L h inputs')
   \<and> (Embed F L h inputs = Some (out, name, err) \<longrightarrow>
        length out = length inputs
        \<and> (\<forall>i < length inputs. embedOne F L h (inputs ! i) = Some (out ! i))
        \<and> (\<forall>i j. i < length inputs \<and> j < length inputs \<and> inputs ! i = inputs ! j
                 \<longrightarrow> out ! i = out ! j))
   \<and> (\<exists>v. embedOne F L (New cfg) x = Some v
          \<and> Embed F L (New cfg) [x, x] = Some ([v, v], modelName (New cfg), None))"
proof (intro conjI impI)
  assume "inputs = inputs'"
  then show "Embed F L h inputs = Embed F L h inputs'" by simp
next
  assume a: "Embed F L h inputs = Some (out, name, err)"
  then have all: "list_all (\<lambda>s. embedOne F L h s \<noteq> None) inputs"
    and out: "out = map (\<lambda>s. the (embedOne F L h s)) inputs"
    by (auto simp: Embed_eq split: if_splits)
  from out show "length out = length inputs" by simp
  have one: "embedOne F L h (inputs ! i) = Some (out ! i)" if "i < length inputs" for i
  proof -
    from all that have "embedOne F L h (inputs ! i) \<noteq> None"
      by (simp add: list_all_length)
    with that out show ?thesis by auto
  qed
  then show "\<forall>i < length inputs. embedOne F L h (inputs ! i) = Some (out ! i)" by blast
  show "\<forall>i j. i < length inputs \<and> j < length inputs \<and> inputs ! i = inputs ! j
                 \<longrightarrow> out ! i = out ! j"
  proof (intro allI impI)
    fix i j assume "i < length inputs \<and> j < length inputs \<and> inputs ! i = inputs ! j"
    with one [of i] one [of j] show "out ! i = out ! j" by simp
  qed
next
  obtain v where v: "embedOne F L (New cfg) x = Some v"
    using embedOne_New [of F L cfg x] by auto
  then have "Embed F L (New cfg) [x, x] = Some ([v, v], modelName (New cfg), None)"
    by (simp add: Embed_eq)
  with v show "\<exists>v. embedOne F L (New cfg) x = Some v
          \<and> Embed F L (New cfg) [x, x] = Some ([v, v], modelName (New cfg), None)"
    by blast
qed

text \<open>
  An instance of the floating-point parameters for evaluating examples: exact
  arithmetic on the finite values, with the square root left out.
\<close>

definition exact_fpu :: "float32 fpu" where
  "exact_fpu =
     \<lparr>f32_add = (\<lambda>a b. case (a, b) of (Finite x, Finite y) \<Rightarrow> Finite (x + y) | _ \<Rightarrow> NaN),
      f32_mul = (\<lambda>a b. case (a, b) of (Finite x, Finite y) \<Rightarrow> Finite (x * y) | _ \<Rightarrow> NaN),
      f64_of_f32 = (\<lambda>a. a),
      f64_zero = Finite 0,
      f64_add = (\<lambda>a b. case (a, b) of (Finite x, Finite y) \<Rightarrow> Finite (x + y) | _ \<Rightarrow> NaN),
      f64_sqrt = (\<lambda>a. a),
      f64_gt_zero = (\<lambda>a. f32_gt a (Finite 0)),
      f64_inv = (\<lambda>a. case a of Finite x \<Rightarrow> Finite (1 / x) | _ \<Rightarrow> NaN),
      f32_of_f64 = (\<lambda>a. a)\<rparr>"

definition demo_cfg :: Config where
  "demo_cfg = \<lparr>ModelName = [], ModelDir = [], Backend = ''hash'', WorkDir = []\<rparr>"

theorem Embed_deterministic_witness:
  "\<exists>v. Embed exact_fpu ascii (New demo_cfg) [''x'', ''x'']
          = Some ([v, v], ''hash-embeddings-384'', None)
       \<and> (0 :: nat) < length [''x'', ''x''] \<and> (1 :: nat) < length [''x'', ''x'']
       \<and> [''x'', ''x''] ! 0 = [''x'', ''x''] ! 1
       \<and> [v, v] ! 0 = [v, v] ! 1"
proof -
  let ?h = "New demo_cfg"
  from Embed_deterministic [of "[''x'', ''x'']" "[''x'', ''x'']" exact_fpu ascii ?h
      _ _ _ demo_cfg "''x''"]
  obtain v where e: "Embed exact_fpu ascii ?h [''x'', ''x''] = Some ([v, v], modelName ?h, None)"
    by blast
  from Embed_deterministic [of "[''x'', ''x'']" "[''x'', ''x'']" exact_fpu ascii ?h
      "[v, v]" "modelName ?h" None demo_cfg "''x''"] e
  have "\<forall>i j. i < length [''x'', ''x''] \<and> j < length [''x'', ''x'']
            \<and> [''x'', ''x''] ! i = [''x'', ''x''] ! j \<longrightarrow> [v, v] ! i = [v, v] ! j"
    by blast
  then have "(0 :: nat) < length [''x'', ''x''] \<and> (1 :: nat) < length [''x'', ''x'']
            \<and> [''x'', ''x''] ! 0 = [''x'', ''x''] ! 1 \<longrightarrow> [v, v] ! 0 = [v, v] ! 1"
    by blast
  then have "[v, v] ! 0 = [v, v] ! 1" by simp
  moreover have "modelName ?h = ''hash-embeddings-384''"
    by (simp add: New_def demo_cfg_def)
  ultimately show ?thesis using e by simp
qed

text \<open>The hash of the one-byte string \<open>a\<close> is the published FNV-1a value.\<close>

lemma hash_a: "hash ''a'' = 0xE40C292C"
  by (simp add: hash_def)

end
